theory Spec2Isabelle
  imports Complex_Main
begin

section \<open>The B-tree of btree.h and btree.c\<close>

text \<open>
  \<^verbatim>\<open>BTKey\<close> is \<^verbatim>\<open>int64_t\<close>. Keys are only ever compared, never computed with, so a key
  is modelled by its integer value. \<^verbatim>\<open>BTPayload\<close> is \<^verbatim>\<open>void*\<close>: either the null pointer or
  an address.
\<close>

type_synonym BTKey = int

datatype BTPayload = NULL | Ptr nat

record BTStats =
  node_visits :: int

text \<open>
  \<^verbatim>\<open>struct BTreeNode\<close>. The arrays \<^verbatim>\<open>keys\<close> and \<^verbatim>\<open>values\<close> are always written
  together, slot by slot, so one list of pairs holds the slots \<^verbatim>\<open>0 .. nkeys-1\<close> of both;
  \<^verbatim>\<open>nkeys\<close> is the length of that list, and what the arrays hold from slot
  \<^verbatim>\<open>nkeys\<close> on is never read. \<^verbatim>\<open>children\<close> holds the child
  pointers of the slots in use: none in a leaf and \<^verbatim>\<open>nkeys + 1\<close> in an internal node of
  every tree built by \<^verbatim>\<open>bt_create\<close> and \<^verbatim>\<open>bt_insert\<close> (\<open>wf_node\<close> below). Where the
  list is shorter, the missing slots stand for null pointers.
\<close>

datatype BTreeNode =
  BTreeNode (entries: "(BTKey \<times> BTPayload) list") (children: "BTreeNode list") (leaf: bool)

text \<open>
  \<^verbatim>\<open>struct BTree\<close>, fields \<^verbatim>\<open>root\<close> and \<^verbatim>\<open>t\<close>. The minimum degree is a C \<^verbatim>\<open>int\<close>;
  the results below are for \<open>t \<ge> 2\<close>, where \<open>2 * t - 1\<close> is the same in both types.
\<close>

record BTree =
  bt_root :: BTreeNode
  bt_t :: nat

definition nkeys :: "BTreeNode \<Rightarrow> nat" where
  "nkeys n = length (entries n)"

definition bt_new_node :: "nat \<Rightarrow> bool \<Rightarrow> BTreeNode" where
  "bt_new_node t lf = BTreeNode [] [] lf"

definition bt_create :: "nat \<Rightarrow> BTree" where
  "bt_create t = \<lparr>bt_root = bt_new_node t True, bt_t = t\<rparr>"

text \<open>The loop \<^verbatim>\<open>while (i < node->nkeys && k > node->keys[i]) i++;\<close> of the search.\<close>

function search_scan :: "(BTKey \<times> BTPayload) list \<Rightarrow> BTKey \<Rightarrow> nat \<Rightarrow> nat" where
  "search_scan es k i = (if i < length es \<and> k > fst (es ! i) then search_scan es k (Suc i) else i)"
  by pat_completeness auto
termination
  by (relation "measure (\<lambda>(es, k, i). length es - i)") auto

declare search_scan.simps [simp del]

text \<open>
  \<^verbatim>\<open>bt_search_node\<close> returns the payload together with the number of times it has run
  \<^verbatim>\<open>stats->node_visits++\<close>. An internal node whose child slot is null makes the C code
  dereference a null pointer; no tree built by \<^verbatim>\<open>bt_create\<close> and \<^verbatim>\<open>bt_insert\<close> has
  such a node (see \<open>wf_node\<close>), and the model answers \<open>NULL\<close> there.
\<close>

function bt_search_node :: "BTreeNode \<Rightarrow> BTKey \<Rightarrow> BTPayload \<times> nat" where
  "bt_search_node (BTreeNode es cs lf) k =
     (let i = search_scan es k 0 in
      if i < length es \<and> k = fst (es ! i) then (snd (es ! i), 1)
      else if lf then (NULL, 1)
      else if i < length cs then
        (let (v, n) = bt_search_node (cs ! i) k in (v, n + 1))
      else (NULL, 1))"
  by pat_completeness auto
termination
proof (relation "measure (\<lambda>(n, k). size n)", goal_cases)
  case 1
  show ?case by simp
next
  case (2 es cs lf k i)
  have "size (cs ! i) \<le> size_list size cs" if "i < length cs" for i
    by (rule size_list_estimation' [OF nth_mem]) (rule that, rule order_refl)
  with 2 show ?case by (simp add: le_imp_less_Suc)
qed

definition bt_search :: "BTree \<Rightarrow> BTKey \<Rightarrow> BTStats \<Rightarrow> BTPayload \<times> BTStats" where
  "bt_search tree k stats =
     (let (v, n) = bt_search_node (bt_root tree) k
      in (v, stats\<lparr>node_visits := node_visits stats + int n\<rparr>))"

text \<open>
  The nodes that one \<^verbatim>\<open>bt_search_node\<close> examines, in the order of the calls: the node
  it is called on and, when the key is not in that node and the node is not a leaf, the
  nodes of the call on \<^verbatim>\<open>children[i]\<close>. No counter is involved.
\<close>

function search_path :: "BTreeNode \<Rightarrow> BTKey \<Rightarrow> BTreeNode list" where
  "search_path (BTreeNode es cs lf) k =
     (let i = search_scan es k 0 in
      if i < length es \<and> k = fst (es ! i) then [BTreeNode es cs lf]
      else if lf then [BTreeNode es cs lf]
      else if i < length cs then BTreeNode es cs lf # search_path (cs ! i) k
      else [BTreeNode es cs lf])"
  by pat_completeness auto
termination
proof (relation "measure (\<lambda>(n, k). size n)", goal_cases)
  case 1
  show ?case by simp
next
  case (2 es cs lf k i)
  have "size (cs ! i) \<le> size_list size cs" if "i < length cs" for i
    by (rule size_list_estimation' [OF nth_mem]) (rule that, rule order_refl)
  with 2 show ?case by (simp add: le_imp_less_Suc)
qed

text \<open>A list of nodes in which each node but the first is a child of the one before it.\<close>

fun descent :: "BTreeNode list \<Rightarrow> bool" where
  "descent (n # m # ms) = (m \<in> set (children n) \<and> descent (m # ms))"
| "descent ns = True"

text \<open>
  \<^verbatim>\<open>bt_split_child(tree, x, i)\<close>: the child \<open>y\<close> in slot \<open>i\<close> keeps its first \<open>t - 1\<close>
  entries (and first \<open>t\<close> children), the new node \<open>z\<close> takes the entries \<open>t .. 2t-2\<close>
  (and the children \<open>t .. 2t-1\<close> when \<open>y\<close> is not a leaf), and the entry \<open>t - 1\<close> of \<open>y\<close>
  moves into slot \<open>i\<close> of \<open>x\<close>, with \<open>z\<close> in child slot \<open>i + 1\<close>.
\<close>

definition bt_split_child :: "nat \<Rightarrow> BTreeNode \<Rightarrow> nat \<Rightarrow> BTreeNode" where
  "bt_split_child t x i =
     (let y = children x ! i;
          z = BTreeNode (take (t - 1) (drop t (entries y)))
                (if leaf y then [] else take t (drop t (children y))) (leaf y);
          y' = BTreeNode (take (t - 1) (entries y)) (take t (children y)) (leaf y)
      in BTreeNode (take i (entries x) @ [entries y ! (t - 1)] @ drop i (entries x))
           (take i (children x) @ [y', z] @ drop (Suc i) (children x))
           (leaf x))"

text \<open>
  The loop \<^verbatim>\<open>while (i >= 0 && k < x->keys[i]) i--;\<close> of the insertion, started at
  \<^verbatim>\<open>i = nkeys - 1\<close>. The C index runs down to \<open>-1\<close>; the model counts \<open>j = i + 1\<close>.
\<close>

function insert_scan :: "(BTKey \<times> BTPayload) list \<Rightarrow> BTKey \<Rightarrow> nat \<Rightarrow> nat" where
  "insert_scan es k j = (if 0 < j \<and> k < fst (es ! (j - 1)) then insert_scan es k (j - 1) else j)"
  by pat_completeness auto
termination
  by (relation "measure (\<lambda>(es, k, j). j)") auto

declare insert_scan.simps [simp del]

text \<open>
  What the shifting loop of the leaf case leaves in the slots \<open>j .. nkeys-1\<close> when
  \<^verbatim>\<open>nkeys\<close> is not incremented afterwards: the loop has copied the slots
  \<open>j .. nkeys-1\<close> to \<open>j+1 .. nkeys\<close> and has not written slot \<open>j\<close>, so these slots now
  hold the old slots \<open>j, j, j+1, ..., nkeys-2\<close>.
\<close>

definition shift_up :: "'a list \<Rightarrow> 'a list" where
  "shift_up xs = (case xs of [] \<Rightarrow> [] | x # _ \<Rightarrow> x # butlast xs)"

text \<open>
  \<^verbatim>\<open>bt_insert_nonfull\<close>. In a leaf the loop first moves the entries above the insertion
  point one slot up. When the entry below that point has the key \<open>k\<close>, its value is
  overwritten and the function returns with \<^verbatim>\<open>nkeys\<close> as it was: the slots above are
  left as the loop has written them (\<open>shift_up\<close>). Otherwise the new entry is written
  into the free slot and \<^verbatim>\<open>nkeys\<close> is incremented. In an internal node the key is
  never compared for equality: the descent goes to child \<open>i\<close>, split first when it is full.
\<close>

function bt_insert_nonfull :: "nat \<Rightarrow> BTreeNode \<Rightarrow> BTKey \<Rightarrow> BTPayload \<Rightarrow> BTreeNode" where
  "bt_insert_nonfull t (BTreeNode es cs lf) k v =
     (let j = insert_scan es k (length es) in
      if lf then
        (if 0 < j \<and> fst (es ! (j - 1)) = k
         then BTreeNode (take (j - 1) es @ [(k, v)] @ shift_up (drop j es)) cs lf
         else BTreeNode (take j es @ [(k, v)] @ drop j es) cs lf)
      else if j < length cs then
        (if length (entries (cs ! j)) = 2 * t - 1 then
           (let x = bt_split_child t (BTreeNode es cs lf) j;
                i = (if k > fst (entries x ! j) then Suc j else j)
            in BTreeNode (entries x)
                 ((children x)[i := bt_insert_nonfull t (children x ! i) k v]) lf)
         else BTreeNode es (cs[j := bt_insert_nonfull t (cs ! j) k v]) lf)
      else BTreeNode es cs lf)"
  by pat_completeness auto
termination
proof (relation "measure (\<lambda>(t, n, k, v). size n)", goal_cases)
  case 1
  show ?case by simp
next
  case (2 t es cs lf k v j x i)
  have nth_le: "size (cs ! i) \<le> size_list size cs" if "i < length cs" for i
    by (rule size_list_estimation' [OF nth_mem]) (rule that, rule order_refl)
  have take_le: "size_list size (take m xs) \<le> size_list size xs" for m and xs :: "BTreeNode list"
    using size_list_append [of size "take m xs" "drop m xs"] by simp
  have drop_le: "size_list size (drop m xs) \<le> size_list size xs" for m and xs :: "BTreeNode list"
    using size_list_append [of size "take m xs" "drop m xs"] by simp
  have len: "length (take j cs) = j" using 2 by simp
  have y: "size (cs ! j) \<le> size_list size cs" using 2 nth_le by simp
  have "size (children x ! i) \<le> size (cs ! j)"
  proof (cases "i = j")
    case True
    then have "children x ! i = BTreeNode (take (t - 1) (entries (cs ! j)))
        (take t (children (cs ! j))) (leaf (cs ! j))"
      using 2 len by (simp add: bt_split_child_def Let_def nth_append)
    then show ?thesis
      using take_le [of t "children (cs ! j)"] by (cases "cs ! j") simp
  next
    case False
    with 2 have "i = Suc j" by (simp split: if_splits)
    then have "children x ! i = BTreeNode (take (t - 1) (drop t (entries (cs ! j))))
        (if leaf (cs ! j) then [] else take t (drop t (children (cs ! j)))) (leaf (cs ! j))"
      using 2 len by (simp add: bt_split_child_def Let_def nth_append)
    then show ?thesis
      using take_le [of t "drop t (children (cs ! j))"] drop_le [of t "children (cs ! j)"]
      by (cases "cs ! j") auto
  qed
  with y show ?case by simp
next
  case (3 t es cs lf k v j)
  have "size (cs ! i) \<le> size_list size cs" if "i < length cs" for i
    by (rule size_list_estimation' [OF nth_mem]) (rule that, rule order_refl)
  with 3 show ?case by (simp add: le_imp_less_Suc)
qed

text \<open>\<^verbatim>\<open>bt_insert\<close>: a full root is first put under a new empty internal node and split.\<close>

definition bt_insert :: "BTree \<Rightarrow> BTKey \<Rightarrow> BTPayload \<Rightarrow> BTree" where
  "bt_insert tree k v =
     (let r = bt_root tree; t = bt_t tree in
      if length (entries r) = 2 * t - 1 then
        (let s = BTreeNode [] [r] False;
             s' = bt_split_child t s 0
         in tree\<lparr>bt_root := bt_insert_nonfull t s' k v\<rparr>)
      else tree\<lparr>bt_root := bt_insert_nonfull t r k v\<rparr>)"

text \<open>A sequence of \<^verbatim>\<open>bt_insert\<close> calls on one tree.\<close>

definition bt_insert_all :: "BTree \<Rightarrow> (BTKey \<times> BTPayload) list \<Rightarrow> BTree" where
  "bt_insert_all tree kvs = foldl (\<lambda>tr (k, v). bt_insert tr k v) tree kvs"

text \<open>
  \<^verbatim>\<open>bt_range_node\<close> returns the callback invocations \<^verbatim>\<open>cb(k, v, arg)\<close> it makes, in
  call order, and the number of times it has run \<^verbatim>\<open>stats->node_visits++\<close>. The callback
  receives only \<open>k\<close>, \<open>v\<close> and \<open>arg\<close>, so the traversal does not depend on what it does.
  \<open>bt_range_loop n i\<close> is the \<^verbatim>\<open>for\<close> loop from index \<open>i\<close> on, with the code after it.
  A null child returns at once (\<^verbatim>\<open>if (!node) return;\<close>), before the visit is counted.
\<close>

function bt_range_node :: "BTreeNode \<Rightarrow> BTKey \<Rightarrow> BTKey \<Rightarrow> (BTKey \<times> BTPayload) list \<times> nat"
  and bt_range_loop :: "BTreeNode \<Rightarrow> nat \<Rightarrow> BTKey \<Rightarrow> BTKey \<Rightarrow> (BTKey \<times> BTPayload) list \<times> nat"
where
  "bt_range_node n lo hi = (let (out, m) = bt_range_loop n 0 lo hi in (out, m + 1))"
| "bt_range_loop n i lo hi =
     (if i < length (entries n) then
        (let ki = fst (entries n ! i);
             (out1, m1) =
               (if \<not> leaf n \<and> lo \<le> ki \<and> i < length (children n)
                then bt_range_node (children n ! i) lo hi else ([], 0));
             out2 = (if ki \<ge> lo \<and> ki \<le> hi then [entries n ! i] else [])
         in if ki > hi then
              (let (out3, m3) =
                 (if \<not> leaf n \<and> i < length (children n)
                  then bt_range_node (children n ! i) lo hi else ([], 0))
               in (out1 @ out2 @ out3, m1 + m3))
            else
              (let (out4, m4) = bt_range_loop n (Suc i) lo hi
               in (out1 @ out2 @ out4, m1 + m4)))
      else if \<not> leaf n \<and> i < length (children n) then bt_range_node (children n ! i) lo hi
      else ([], 0))"
  by pat_completeness auto
termination
proof (relation "inv_image (less_than <*lex*> less_than)
    (\<lambda>x. case x of Inl (n, lo, hi) \<Rightarrow> (size n, length (entries n) + 2)
                  | Inr (n, i, lo, hi) \<Rightarrow> (size n, length (entries n) + 1 - i))", goal_cases)
  case 1
  show ?case by (intro wf_inv_image wf_lex_prod wf_less_than)
next
  case (2 n lo hi)
  show ?case by simp
next
  case (3 n i lo hi ki)
  have "size (children n ! i) \<le> size_list size (children n)" if "i < length (children n)"
    by (rule size_list_estimation' [OF nth_mem]) (rule that, rule order_refl)
  with 3 show ?case by (cases n) (simp add: le_imp_less_Suc)
next
  case (4 n i lo hi ki p out1 m1 out2)
  have "size (children n ! i) \<le> size_list size (children n)" if "i < length (children n)"
    by (rule size_list_estimation' [OF nth_mem]) (rule that, rule order_refl)
  with 4 show ?case by (cases n) (simp add: le_imp_less_Suc)
next
  case (5 n i lo hi ki p out1 m1 out2)
  then show ?case by simp
next
  case (6 n i lo hi)
  have "size (children n ! i) \<le> size_list size (children n)" if "i < length (children n)"
    by (rule size_list_estimation' [OF nth_mem]) (rule that, rule order_refl)
  with 6 show ?case by (cases n) (simp add: le_imp_less_Suc)
qed

declare bt_range_node.simps [simp del]
declare bt_range_loop.simps [simp del]

definition bt_range_search ::
  "BTree \<Rightarrow> BTKey \<Rightarrow> BTKey \<Rightarrow> (BTKey \<Rightarrow> BTPayload \<Rightarrow> 'a \<Rightarrow> 'a) \<Rightarrow> 'a \<Rightarrow> BTStats \<Rightarrow> 'a \<times> BTStats" where
  "bt_range_search tree lo hi cb arg stats =
     (let (out, m) = bt_range_node (bt_root tree) lo hi
      in (fold (\<lambda>(k, v). cb k v) out arg, stats\<lparr>node_visits := node_visits stats + int m\<rparr>))"

text \<open>
  \<^verbatim>\<open>bt_count_keys_node\<close>: \<^verbatim>\<open>nkeys\<close> plus, for an internal node, the counts of the child
  slots \<^verbatim>\<open>0 .. nkeys\<close>; a null slot counts 0.
\<close>

function bt_count_keys_node :: "BTreeNode \<Rightarrow> nat" where
  "bt_count_keys_node (BTreeNode es cs lf) =
     length es + (if lf then 0 else sum_list (map bt_count_keys_node (take (Suc (length es)) cs)))"
  by pat_completeness auto
termination
proof (relation "measure size", goal_cases)
  case 1
  show ?case by simp
next
  case (2 es cs lf c)
  then have "c \<in> set cs" by (auto dest: in_set_takeD)
  then have "size c \<le> size_list size cs"
    by (rule size_list_estimation') (rule order_refl)
  then show ?case by (simp add: le_imp_less_Suc)
qed

definition bt_count_keys :: "BTree \<Rightarrow> nat" where
  "bt_count_keys tree = bt_count_keys_node (bt_root tree)"

section \<open>The hot/cold index of hctree.h and hctree.c\<close>

text \<open>
  The \<^verbatim>\<open>double\<close> fields are modelled by the real numbers they denote. The \<^verbatim>\<open>long\<close>
  counters are modelled by unbounded integers. \<^verbatim>\<open>inclusive\<close> is a C \<^verbatim>\<open>int\<close> used as a
  truth value.
\<close>

record HCParams =
  decay_alpha :: real
  hot_threshold :: real
  max_hot_fraction :: real
  inclusive :: int

record HCStats =
  queries :: int
  hot_hits :: int
  cold_hits :: int
  not_found :: int
  hot_node_visits :: int
  cold_node_visits :: int
  hot_keys :: nat
  cold_keys :: nat

record HCIndex =
  hot :: BTree
  cold :: BTree
  max_key :: int
  hit_score :: "real list"
  params :: HCParams
  stats :: HCStats

text \<open>The cast \<^verbatim>\<open>(size_t)\<close> of an \<^verbatim>\<open>int64_t\<close>, for a 64-bit \<^verbatim>\<open>size_t\<close>.\<close>

definition size_t_of :: "int \<Rightarrow> nat" where
  "size_t_of i = nat (i mod 2 ^ 64)"

definition zero_stats :: HCStats where
  "zero_stats = \<lparr>queries = 0, hot_hits = 0, cold_hits = 0, not_found = 0,
     hot_node_visits = 0, cold_node_visits = 0, hot_keys = 0, cold_keys = 0\<rparr>"

definition hc_create :: "int \<Rightarrow> nat \<Rightarrow> HCParams \<Rightarrow> HCIndex" where
  "hc_create mk btree_degree ps =
     \<lparr>hot = bt_create btree_degree, cold = bt_create btree_degree, max_key = mk,
      hit_score = replicate (size_t_of (mk + 1)) 0, params = ps, stats = zero_stats\<rparr>"

text \<open>
  What \<^verbatim>\<open>hc_insert\<close> prints to \<^verbatim>\<open>stderr\<close>: the message with its two numbers. The
  function returns the index after the call and the messages printed by the call.
\<close>

datatype diagnostic = Key_out_of_range BTKey int

definition hc_insert :: "HCIndex \<Rightarrow> BTKey \<Rightarrow> BTPayload \<Rightarrow> HCIndex \<times> diagnostic list" where
  "hc_insert idx k v =
     (if k < 0 \<or> k > max_key idx then (idx, [Key_out_of_range k (max_key idx)])
      else (idx\<lparr>cold := bt_insert (cold idx) k v\<rparr>, []))"

text \<open>
  What the \<^verbatim>\<open>double\<close> operations of hctree.c return depends on the rounding of the
  machine. The functions \<open>maybe_promote_fp\<close> and \<open>hc_search_fp\<close> take these
  operations as a parameter: \<open>fp_of_size\<close> is the conversion \<^verbatim>\<open>(double)\<close> of a
  \<^verbatim>\<open>size_t\<close>, \<open>fp_mul\<close> the product of two \<^verbatim>\<open>double\<close>, and \<open>fp_muladd a b c\<close>
  the value of the expression \<^verbatim>\<open>a * b + c\<close> (one operation for the whole expression,
  which a compiler may evaluate with one rounding or with two). The comparison \<^verbatim>\<open>>=\<close> of
  two \<^verbatim>\<open>double\<close> is the comparison of the numbers they denote; infinities and NaN are
  not modelled. \<open>exact_fp\<close> are the operations without rounding.
\<close>

record fp_ops =
  fp_of_size :: "nat \<Rightarrow> real"
  fp_mul :: "real \<Rightarrow> real \<Rightarrow> real"
  fp_muladd :: "real \<Rightarrow> real \<Rightarrow> real \<Rightarrow> real"

definition exact_fp :: fp_ops where
  "exact_fp = \<lparr>fp_of_size = real, fp_mul = (\<lambda>a b. a * b), fp_muladd = (\<lambda>a b c. a * b + c)\<rparr>"

text \<open>\<^verbatim>\<open>maybe_promote\<close>, with the \<^verbatim>\<open>double\<close> operations \<open>fp\<close>.\<close>

definition maybe_promote_fp :: "fp_ops \<Rightarrow> HCIndex \<Rightarrow> BTKey \<Rightarrow> HCIndex" where
  "maybe_promote_fp fp idx k =
     (if inclusive (params idx) = 0 then idx
      else
        (let total_keys = size_t_of (max_key idx + 1);
             hot_keys = bt_count_keys (hot idx);
             cold_keys = bt_count_keys (cold idx);
             max_hot = fp_mul fp (max_hot_fraction (params idx)) (fp_of_size fp total_keys)
         in if fp_of_size fp hot_keys \<ge> max_hot then idx
            else
              (let (existing, s) = bt_search (hot idx) k \<lparr>node_visits = 0\<rparr> in
               if existing \<noteq> NULL then idx
               else
                 (let (v, s2) = bt_search (cold idx) k \<lparr>node_visits = 0\<rparr> in
                  if v = NULL then idx
                  else idx\<lparr>hot := bt_insert (hot idx) k v\<rparr>))))"

text \<open>
  The nodes that the two \<^verbatim>\<open>bt_search\<close> calls of one \<^verbatim>\<open>maybe_promote\<close> examine.
  (The traversals of \<^verbatim>\<open>bt_count_keys\<close> and \<^verbatim>\<open>bt_insert\<close> examine further nodes,
  which are left out.)
\<close>

definition maybe_promote_examined :: "fp_ops \<Rightarrow> HCIndex \<Rightarrow> BTKey \<Rightarrow> BTreeNode list" where
  "maybe_promote_examined fp idx k =
     (if inclusive (params idx) = 0 then []
      else
        (let total_keys = size_t_of (max_key idx + 1);
             hot_keys = bt_count_keys (hot idx);
             max_hot = fp_mul fp (max_hot_fraction (params idx)) (fp_of_size fp total_keys)
         in if fp_of_size fp hot_keys \<ge> max_hot then []
            else
              (let (existing, s) = bt_search (hot idx) k \<lparr>node_visits = 0\<rparr> in
               if existing \<noteq> NULL then search_path (bt_root (hot idx)) k
               else search_path (bt_root (hot idx)) k @ search_path (bt_root (cold idx)) k)))"

text \<open>\<^verbatim>\<open>hc_search\<close>, with the \<^verbatim>\<open>double\<close> operations \<open>fp\<close>.\<close>

definition hc_search_fp :: "fp_ops \<Rightarrow> HCIndex \<Rightarrow> BTKey \<Rightarrow> BTPayload \<times> HCIndex" where
  "hc_search_fp fp idx0 k =
     (let idx1 = idx0\<lparr>stats := (stats idx0)\<lparr>queries := queries (stats idx0) + 1\<rparr>\<rparr>;
          (v, hot_s) = bt_search (hot idx1) k \<lparr>node_visits = 0\<rparr>;
          idx2 = idx1\<lparr>stats := (stats idx1)
                   \<lparr>hot_node_visits := hot_node_visits (stats idx1) + node_visits hot_s\<rparr>\<rparr>
      in if v \<noteq> NULL then
           (let idx3 = idx2\<lparr>stats := (stats idx2)\<lparr>hot_hits := hot_hits (stats idx2) + 1\<rparr>\<rparr>
            in if k \<ge> 0 \<and> k \<le> max_key idx3 then
                 (let old = hit_score idx3 ! nat k
                  in (v, idx3\<lparr>hit_score :=
                            (hit_score idx3)[nat k := fp_muladd fp (decay_alpha (params idx3)) old 1]\<rparr>))
               else (v, idx3))
         else
           (let (v, cold_s) = bt_search (cold idx2) k \<lparr>node_visits = 0\<rparr>;
                idx3 = idx2\<lparr>stats := (stats idx2)
                   \<lparr>cold_node_visits := cold_node_visits (stats idx2) + node_visits cold_s\<rparr>\<rparr>
            in if v \<noteq> NULL then
                 (let idx4 = idx3\<lparr>stats := (stats idx3)
                        \<lparr>cold_hits := cold_hits (stats idx3) + 1\<rparr>\<rparr>
                  in if k \<ge> 0 \<and> k \<le> max_key idx4 then
                       (let old = hit_score idx4 ! nat k;
                            new_score = fp_muladd fp (decay_alpha (params idx4)) old 1;
                            idx5 = idx4\<lparr>hit_score := (hit_score idx4)[nat k := new_score]\<rparr>
                        in if new_score \<ge> hot_threshold (params idx5)
                           then (v, maybe_promote_fp fp idx5 k) else (v, idx5))
                     else (v, idx4))
               else (NULL, idx3\<lparr>stats := (stats idx3)
                        \<lparr>not_found := not_found (stats idx3) + 1\<rparr>\<rparr>)))"

text \<open>
  The nodes that the \<^verbatim>\<open>bt_search\<close> calls made during one \<^verbatim>\<open>hc_search\<close> examine: those
  of the hot probe, of the cold probe when the hot probe misses, and of the probes of
  \<^verbatim>\<open>maybe_promote\<close> when it is called.
\<close>

definition hc_search_examined :: "fp_ops \<Rightarrow> HCIndex \<Rightarrow> BTKey \<Rightarrow> BTreeNode list" where
  "hc_search_examined fp idx k =
     (let (v, hot_s) = bt_search (hot idx) k \<lparr>node_visits = 0\<rparr> in
      if v \<noteq> NULL then search_path (bt_root (hot idx)) k
      else
        (let (v, cold_s) = bt_search (cold idx) k \<lparr>node_visits = 0\<rparr> in
         if v \<noteq> NULL \<and> k \<ge> 0 \<and> k \<le> max_key idx
            \<and> fp_muladd fp (decay_alpha (params idx)) (hit_score idx ! nat k) 1
                \<ge> hot_threshold (params idx)
         then search_path (bt_root (hot idx)) k @ search_path (bt_root (cold idx)) k
                @ maybe_promote_examined fp idx k
         else search_path (bt_root (hot idx)) k @ search_path (bt_root (cold idx)) k))"

text \<open>
  The two functions with the operations without rounding. The results on \<open>maybe_promote\<close>
  and \<open>hc_search\<close> below are results on these; those on \<open>maybe_promote_fp\<close> and
  \<open>hc_search_fp\<close> hold for every rounding.
\<close>

definition maybe_promote :: "HCIndex \<Rightarrow> BTKey \<Rightarrow> HCIndex" where
  "maybe_promote idx k = maybe_promote_fp exact_fp idx k"

definition hc_search :: "HCIndex \<Rightarrow> BTKey \<Rightarrow> BTPayload \<times> HCIndex" where
  "hc_search idx0 k = hc_search_fp exact_fp idx0 k"

text \<open>
  \<^verbatim>\<open>HCRangeCtx\<close>. \<open>user_calls\<close> stands for \<^verbatim>\<open>user_cb\<close> and \<^verbatim>\<open>user_arg\<close>: the list of
  the calls \<^verbatim>\<open>user_cb(k, v, user_arg)\<close> made so far. \<open>seen\<close> is the \<^verbatim>\<open>int64_t\<close> array.
\<close>

record HCRangeCtx =
  user_calls :: "(BTKey \<times> BTPayload) list"
  seen :: "int list"
  ctx_idx :: HCIndex

definition hc_range_cb_hot :: "BTKey \<Rightarrow> BTPayload \<Rightarrow> HCRangeCtx \<Rightarrow> HCRangeCtx" where
  "hc_range_cb_hot k v ctx =
     (if k < 0 \<or> k > max_key (ctx_idx ctx) then ctx
      else if seen ctx ! nat k = 0
      then ctx\<lparr>seen := (seen ctx)[nat k := 1], user_calls := user_calls ctx @ [(k, v)]\<rparr>
      else ctx)"

definition hc_range_cb_cold :: "BTKey \<Rightarrow> BTPayload \<Rightarrow> HCRangeCtx \<Rightarrow> HCRangeCtx" where
  "hc_range_cb_cold k v ctx =
     (if k < 0 \<or> k > max_key (ctx_idx ctx) then ctx
      else if seen ctx ! nat k = 0
      then ctx\<lparr>seen := (seen ctx)[nat k := 1], user_calls := user_calls ctx @ [(k, v)]\<rparr>
      else ctx)"

text \<open>\<^verbatim>\<open>hc_range_search\<close> returns the calls of the user's callback and the index.\<close>

definition hc_range_search ::
  "HCIndex \<Rightarrow> BTKey \<Rightarrow> BTKey \<Rightarrow> (BTKey \<times> BTPayload) list \<times> HCIndex" where
  "hc_range_search idx lo hi =
     (let ctx = \<lparr>user_calls = [], seen = replicate (size_t_of (max_key idx + 1)) 0,
                 ctx_idx = idx\<rparr>;
          (ctx1, hot_s) = bt_range_search (hot idx) lo hi hc_range_cb_hot ctx \<lparr>node_visits = 0\<rparr>;
          (ctx2, cold_s) =
             bt_range_search (cold idx) lo hi hc_range_cb_cold ctx1 \<lparr>node_visits = 0\<rparr>
      in (user_calls ctx2,
          idx\<lparr>stats := (stats idx)
            \<lparr>hot_node_visits := hot_node_visits (stats idx) + node_visits hot_s,
             cold_node_visits := cold_node_visits (stats idx) + node_visits cold_s\<rparr>\<rparr>))"


text \<open>
  Sequences of calls of the library on one index: \<open>hc_run_fp\<close> with the \<^verbatim>\<open>double\<close>
  operations \<open>fp\<close>, \<open>hc_run\<close> with the operations without rounding.
\<close>

datatype hc_op = Insert BTKey BTPayload | Search BTKey | Range_search BTKey BTKey

fun hc_step_fp :: "fp_ops \<Rightarrow> HCIndex \<Rightarrow> hc_op \<Rightarrow> HCIndex" where
  "hc_step_fp fp idx (Insert k v) = fst (hc_insert idx k v)"
| "hc_step_fp fp idx (Search k) = snd (hc_search_fp fp idx k)"
| "hc_step_fp fp idx (Range_search lo hi) = snd (hc_range_search idx lo hi)"

definition hc_run_fp :: "fp_ops \<Rightarrow> HCIndex \<Rightarrow> hc_op list \<Rightarrow> HCIndex" where
  "hc_run_fp fp idx ops = foldl (hc_step_fp fp) idx ops"

fun hc_step :: "HCIndex \<Rightarrow> hc_op \<Rightarrow> HCIndex" where
  "hc_step idx (Insert k v) = fst (hc_insert idx k v)"
| "hc_step idx (Search k) = snd (hc_search idx k)"
| "hc_step idx (Range_search lo hi) = snd (hc_range_search idx lo hi)"

definition hc_run :: "HCIndex \<Rightarrow> hc_op list \<Rightarrow> HCIndex" where
  "hc_run idx ops = foldl hc_step idx ops"

section \<open>Abstraction and invariants\<close>

text \<open>
  The entries of a subtree in traversal order: for an internal node, child 0, entry 0,
  child 1, entry 1, ..., last child.
\<close>

fun interleave :: "'a list list \<Rightarrow> 'a list \<Rightarrow> 'a list" where
  "interleave [] es = es"
| "interleave (c # cs) [] = c"
| "interleave (c # cs) (e # es) = c @ e # interleave cs es"

fun inorder :: "BTreeNode \<Rightarrow> (BTKey \<times> BTPayload) list" where
  "inorder (BTreeNode es cs lf) = (if lf then es else interleave (map inorder cs) es)"

text \<open>\<open>pre_part\<close>: what precedes child \<open>i\<close> in that order; \<open>post_part\<close>: what follows it.\<close>

fun pre_part :: "'a list list \<Rightarrow> 'a list \<Rightarrow> 'a list" where
  "pre_part (c # cs) (e # es) = c @ e # pre_part cs es"
| "pre_part cs es = []"

definition post_part :: "'a list \<Rightarrow> 'a list list \<Rightarrow> 'a list" where
  "post_part es cs = (case es of [] \<Rightarrow> [] | e # es' \<Rightarrow> e # interleave cs es')"

definition keys_of :: "BTree \<Rightarrow> BTKey set" where
  "keys_of tree = fst ` set (inorder (bt_root tree))"

text \<open>
  The shape that the array accesses of the C code rely on: a node has at most \<open>2t - 1\<close>
  entries, a leaf has no child, an internal node has \<open>nkeys + 1\<close> children.
\<close>

fun wf_node :: "nat \<Rightarrow> BTreeNode \<Rightarrow> bool" where
  "wf_node t (BTreeNode es cs lf) =
     (length es \<le> 2 * t - 1 \<and>
      (if lf then cs = [] else length cs = Suc (length es) \<and> (\<forall>c \<in> set cs. wf_node t c)))"

definition wf_tree :: "BTree \<Rightarrow> bool" where
  "wf_tree tree = (2 \<le> bt_t tree \<and> wf_node (bt_t tree) (bt_root tree))"

text \<open>Keys in traversal order: non-decreasing (\<open>sorted_tree\<close>), increasing (\<open>strict_tree\<close>).\<close>

definition sorted_tree :: "BTree \<Rightarrow> bool" where
  "sorted_tree tree = sorted (map fst (inorder (bt_root tree)))"

definition strict_tree :: "BTree \<Rightarrow> bool" where
  "strict_tree tree = sorted_wrt (<) (map fst (inorder (bt_root tree)))"

text \<open>The payload bound to a key in a list of entries, \<open>NULL\<close> when there is none.\<close>

definition lookup :: "(BTKey \<times> BTPayload) list \<Rightarrow> BTKey \<Rightarrow> BTPayload" where
  "lookup xs k = (case map_of xs k of None \<Rightarrow> NULL | Some v \<Rightarrow> v)"

text \<open>
  What one \<^verbatim>\<open>bt_insert_nonfull\<close> does to the entries in traversal order: a new entry
  between the keys not above and the keys not below \<open>k\<close>, or a new payload for an entry
  with key \<open>k\<close> in a leaf, whose entries \<open>b\<close> above it in that leaf become
  \<open>shift_up b\<close>.
\<close>

definition ins_rel ::
  "BTKey \<Rightarrow> BTPayload \<Rightarrow> (BTKey \<times> BTPayload) list \<Rightarrow> (BTKey \<times> BTPayload) list \<Rightarrow> bool" where
  "ins_rel k v xs ys =
     ((\<exists>l r. xs = l @ r \<and> ys = l @ (k, v) # r
          \<and> (\<forall>e \<in> set l. fst e \<le> k) \<and> (\<forall>e \<in> set r. k \<le> fst e))
      \<or> (\<exists>l v0 b r. xs = l @ (k, v0) # b @ r \<and> ys = l @ (k, v) # shift_up b @ r))"

text \<open>
  The state of an index between two calls of the library. The hot tree holds increasing
  keys and no null payload; the cold tree holds non-decreasing keys; the keys of both are
  in \<open>[0, max_key]\<close>; the score array has \<^verbatim>\<open>(size_t)(max_key + 1)\<close> slots.
\<close>

definition hot_ok :: "HCIndex \<Rightarrow> bool" where
  "hot_ok idx = (wf_tree (hot idx) \<and> strict_tree (hot idx)
     \<and> NULL \<notin> snd ` set (inorder (bt_root (hot idx))))"

definition cold_ok :: "HCIndex \<Rightarrow> bool" where
  "cold_ok idx = (wf_tree (cold idx) \<and> sorted_tree (cold idx)
     \<and> keys_of (cold idx) \<subseteq> {0 .. max_key idx})"

definition hc_inv :: "HCIndex \<Rightarrow> bool" where
  "hc_inv idx = (hot_ok idx \<and> cold_ok idx \<and> keys_of (hot idx) \<subseteq> {0 .. max_key idx}
     \<and> length (hit_score idx) = size_t_of (max_key idx + 1))"

text \<open>The bound that the capacity test of \<^verbatim>\<open>maybe_promote\<close> keeps on the hot tree.\<close>

definition hot_cap :: "HCIndex \<Rightarrow> bool" where
  "hot_cap idx = (bt_count_keys (hot idx) = 0 \<or>
     real (bt_count_keys (hot idx)) - 1
       < max_hot_fraction (params idx) * real (size_t_of (max_key idx + 1)))"

definition stats0 :: BTStats where
  "stats0 = \<lparr>node_visits = 0\<rparr>"


text \<open>Every entry of the hot tree is an entry of the cold tree.\<close>

definition hot_sub :: "HCIndex \<Rightarrow> bool" where
  "hot_sub idx = (set (inorder (bt_root (hot idx))) \<subseteq> set (inorder (bt_root (cold idx))))"

fun is_insert :: "hc_op \<Rightarrow> bool" where
  "is_insert (Insert k v) = True"
| "is_insert (Search k) = False"
| "is_insert (Range_search lo hi) = False"

text \<open>
  The entries with a key in \<open>[lo, hi]\<close>, and the entries of a node that the loop of
  \<^verbatim>\<open>bt_range_node\<close> has still to pass when it is at index \<open>i\<close>.
\<close>

definition in_range :: "BTKey \<Rightarrow> BTKey \<Rightarrow> (BTKey \<times> BTPayload) list \<Rightarrow> (BTKey \<times> BTPayload) set" where
  "in_range lo hi xs = {e \<in> set xs. lo \<le> fst e \<and> fst e \<le> hi}"

definition rest_from :: "BTreeNode \<Rightarrow> nat \<Rightarrow> (BTKey \<times> BTPayload) list" where
  "rest_from n i =
     (if leaf n then drop i (entries n)
      else interleave (map inorder (drop i (children n))) (drop i (entries n)))"

text \<open>
  The state of the dedup filter of \<^verbatim>\<open>hc_range_search\<close> for an index with
  \<open>max_key = mk\<close>: \<open>seen\<close> has one slot for each key of \<open>[0, mk]\<close>, the slot of a key
  is set exactly when the key has been passed to the user's callback, and no key has been
  passed twice.
\<close>

definition cb_inv :: "int \<Rightarrow> HCRangeCtx \<Rightarrow> bool" where
  "cb_inv mk ctx = (length (seen ctx) = nat (mk + 1) \<and> max_key (ctx_idx ctx) = mk
     \<and> distinct (map fst (user_calls ctx))
     \<and> (\<forall>k. 0 \<le> k \<and> k \<le> mk \<longrightarrow>
           (seen ctx ! nat k \<noteq> 0) = (k \<in> fst ` set (user_calls ctx))))"

text \<open>The two halves that \<^verbatim>\<open>bt_split_child\<close> makes of a full child.\<close>

definition split_lo :: "nat \<Rightarrow> BTreeNode \<Rightarrow> BTreeNode" where
  "split_lo t y = BTreeNode (take (t - 1) (entries y)) (take t (children y)) (leaf y)"

definition split_hi :: "nat \<Rightarrow> BTreeNode \<Rightarrow> BTreeNode" where
  "split_hi t y = BTreeNode (take (t - 1) (drop t (entries y)))
     (if leaf y then [] else take t (drop t (children y))) (leaf y)"

section \<open>The scans\<close>

lemma search_scan_step:
  "i < length es \<Longrightarrow> k > fst (es ! i) \<Longrightarrow> search_scan es k i = search_scan es k (Suc i)"
  by (subst search_scan.simps) auto

lemma search_scan_done:
  "\<not> (i < length es \<and> k > fst (es ! i)) \<Longrightarrow> search_scan es k i = i"
  by (subst search_scan.simps) auto

lemma search_scan_bounds:
  "i \<le> length es \<Longrightarrow> i \<le> search_scan es k i \<and> search_scan es k i \<le> length es"
proof (induction es k i rule: search_scan.induct)
  case (1 es k i)
  show ?case
  proof (cases "i < length es \<and> k > fst (es ! i)")
    case True
    with 1 show ?thesis by (simp add: search_scan_step)
  next
    case False
    with 1 show ?thesis by (simp add: search_scan_done)
  qed
qed

lemma search_scan_below:
  "i \<le> j \<Longrightarrow> j < search_scan es k i \<Longrightarrow> fst (es ! j) < k"
proof (induction es k i rule: search_scan.induct)
  case (1 es k i)
  show ?case
  proof (cases "i < length es \<and> k > fst (es ! i)")
    case True
    show ?thesis
    proof (cases "j = i")
      case True
      with \<open>i < length es \<and> k > fst (es ! i)\<close> show ?thesis by simp
    next
      case False
      with 1 True show ?thesis by (simp add: search_scan_step)
    qed
  next
    case False
    with 1 show ?thesis by (simp add: search_scan_done)
  qed
qed

lemma search_scan_stop:
  "search_scan es k i < length es \<Longrightarrow> k \<le> fst (es ! search_scan es k i)"
proof (induction es k i rule: search_scan.induct)
  case (1 es k i)
  show ?case
  proof (cases "i < length es \<and> k > fst (es ! i)")
    case True
    with 1 show ?thesis by (simp add: search_scan_step)
  next
    case False
    with 1 show ?thesis by (auto simp: search_scan_done)
  qed
qed

lemma insert_scan_step:
  "0 < j \<Longrightarrow> k < fst (es ! (j - 1)) \<Longrightarrow> insert_scan es k j = insert_scan es k (j - 1)"
  by (subst insert_scan.simps) auto

lemma insert_scan_done:
  "\<not> (0 < j \<and> k < fst (es ! (j - 1))) \<Longrightarrow> insert_scan es k j = j"
  by (subst insert_scan.simps) auto

lemma insert_scan_le: "insert_scan es k j \<le> j"
proof (induction es k j rule: insert_scan.induct)
  case (1 es k j)
  show ?case
  proof (cases "0 < j \<and> k < fst (es ! (j - 1))")
    case True
    with 1 show ?thesis by (simp add: insert_scan_step le_diff_conv trans_le_add1)
  next
    case False
    then show ?thesis by (simp add: insert_scan_done)
  qed
qed

lemma insert_scan_above:
  "insert_scan es k j \<le> m \<Longrightarrow> m < j \<Longrightarrow> k < fst (es ! m)"
proof (induction es k j rule: insert_scan.induct)
  case (1 es k j)
  show ?case
  proof (cases "0 < j \<and> k < fst (es ! (j - 1))")
    case True
    show ?thesis
    proof (cases "m = j - 1")
      case True
      with \<open>0 < j \<and> k < fst (es ! (j - 1))\<close> show ?thesis by simp
    next
      case False
      with 1 True show ?thesis by (simp add: insert_scan_step)
    qed
  next
    case False
    with 1 show ?thesis by (simp add: insert_scan_done)
  qed
qed

lemma insert_scan_stop:
  "0 < insert_scan es k j \<Longrightarrow> fst (es ! (insert_scan es k j - 1)) \<le> k"
proof (induction es k j rule: insert_scan.induct)
  case (1 es k j)
  show ?case
  proof (cases "0 < j \<and> k < fst (es ! (j - 1))")
    case True
    with 1 show ?thesis by (simp add: insert_scan_step)
  next
    case False
    with 1 show ?thesis by (auto simp: insert_scan_done)
  qed
qed

section \<open>Splitting and the traversal order\<close>

lemma bt_split_child_eq:
  "bt_split_child t (BTreeNode es cs lf) j =
     BTreeNode (take j es @ entries (cs ! j) ! (t - 1) # drop j es)
       (take j cs @ split_lo t (cs ! j) # split_hi t (cs ! j) # drop (Suc j) cs) lf"
  by (simp add: bt_split_child_def split_lo_def split_hi_def Let_def)

lemma split_list_at:
  "n < length es \<Longrightarrow> \<exists>xs m ys. es = xs @ m # ys \<and> length xs = n"
  by (rule exI [of _ "take n es"], rule exI [of _ "es ! n"], rule exI [of _ "drop (Suc n) es"])
     (simp add: id_take_nth_drop [symmetric])

lemma split_list_le:
  "n \<le> length es \<Longrightarrow> \<exists>xs ys. es = xs @ ys \<and> length xs = n"
  by (rule exI [of _ "take n es"], rule exI [of _ "drop n es"]) simp

lemma interleave_append:
  "length as = length xs \<Longrightarrow> interleave (as @ bs) (xs @ ys) = pre_part as xs @ interleave bs ys"
  by (induction as xs rule: list_induct2) auto

lemma interleave_Cons_post: "interleave (c # bs) ys = c @ post_part ys bs"
  by (cases ys) (simp_all add: post_part_def)

lemma post_part_Nil [simp]: "post_part [] cs = []"
  by (simp add: post_part_def)

lemma post_part_Cons: "post_part (e # es) (c # cs) = e # c @ post_part es cs"
  by (simp add: post_part_def interleave_Cons_post)

lemma pre_part_snoc:
  "length as = length xs \<Longrightarrow> pre_part (as @ [c]) (xs @ [e]) = pre_part as xs @ c @ [e]"
  by (induction as xs rule: list_induct2) auto

lemma inorder_decomp:
  "length as = length xs \<Longrightarrow>
   inorder (BTreeNode (xs @ ys) (as @ c # bs) False) =
     pre_part (map inorder as) xs @ inorder c @ post_part ys (map inorder bs)"
  using interleave_append [of "map inorder as" xs "inorder c # map inorder bs" ys]
  by (simp add: interleave_Cons_post)

lemma interleave_split:
  "length as = Suc (length xs) \<Longrightarrow>
   interleave (as @ bs) (xs @ m # ys) = interleave as xs @ m # interleave bs ys"
proof (induction xs arbitrary: as)
  case Nil
  then obtain a where "as = [a]" by (cases as) auto
  then show ?case by simp
next
  case (Cons x xs)
  then obtain a as' where "as = a # as'" "length as' = Suc (length xs)" by (cases as) auto
  with Cons.IH [of as'] show ?case by simp
qed

text \<open>Splitting a full node keeps its entries in order.\<close>

lemma split_inorder:
  assumes "wf_node (Suc n) y" "length (entries y) = 2 * n + 1"
  shows "inorder y = inorder (split_lo (Suc n) y) @ entries y ! n # inorder (split_hi (Suc n) y)"
proof (cases y)
  case (BTreeNode es cs lf)
  with assms have len: "length es = 2 * n + 1" by simp
  then obtain xs m ys where es: "es = xs @ m # ys" "length xs = n"
    using split_list_at [of n es] by auto
  with len have ys: "length ys = n" by simp
  show ?thesis
  proof (cases lf)
    case True
    with BTreeNode es ys show ?thesis by (simp add: split_lo_def split_hi_def nth_append)
  next
    case False
    with BTreeNode assms len have lcs: "length cs = Suc n + Suc n" by simp
    then obtain as bs where cs: "cs = as @ bs" "length as = Suc n"
      using split_list_le [of "Suc n" cs] by auto
    with lcs have bs: "length bs = Suc n" by simp
    have "interleave (map inorder as @ map inorder bs) (xs @ m # ys)
        = interleave (map inorder as) xs @ m # interleave (map inorder bs) ys"
      by (rule interleave_split) (simp add: cs es)
    with BTreeNode False es ys cs bs show ?thesis by (simp add: split_lo_def split_hi_def nth_append)
  qed
qed

lemma split_wf:
  assumes "wf_node (Suc n) y" "length (entries y) = 2 * n + 1"
  shows "wf_node (Suc n) (split_lo (Suc n) y)" "wf_node (Suc n) (split_hi (Suc n) y)"
    "length (entries (split_lo (Suc n) y)) = n" "length (entries (split_hi (Suc n) y)) = n"
proof -
  obtain es cs lf where y: "y = BTreeNode es cs lf" by (cases y)
  with assms have len: "length es = 2 * n + 1" by simp
  show "length (entries (split_lo (Suc n) y)) = n" "length (entries (split_hi (Suc n) y)) = n"
    using y len by (simp_all add: split_lo_def split_hi_def)
  show "wf_node (Suc n) (split_lo (Suc n) y)"
    using y len assms(1) by (auto simp: split_lo_def dest: in_set_takeD)
  show "wf_node (Suc n) (split_hi (Suc n) y)"
    using y len assms(1) by (auto simp: split_hi_def dest!: in_set_takeD in_set_dropD)
qed

lemma pre_part_Nil2 [simp]: "pre_part cs [] = []"
  by (cases cs) simp_all

lemma pre_part_last:
  "length as = length xs \<Longrightarrow> xs \<noteq> [] \<Longrightarrow> \<exists>p. pre_part as xs = p @ [last xs]"
proof (induction as xs rule: list_induct2)
  case Nil
  then show ?case by simp
next
  case (Cons a as x xs)
  show ?case
  proof (cases "xs = []")
    case True
    with Cons show ?thesis by simp
  next
    case False
    with Cons obtain p where "pre_part as xs = p @ [last xs]" by auto
    with False show ?thesis by simp
  qed
qed

lemma pre_bound:
  assumes "length as = length xs" "sorted (map fst (pre_part as xs @ R))"
    and "xs \<noteq> [] \<Longrightarrow> fst (last xs) \<le> (k::int)"
  shows "\<forall>e \<in> set (pre_part as xs). fst e \<le> k"
proof (cases "xs = []")
  case True
  then show ?thesis by simp
next
  case False
  with assms(1) obtain p where p: "pre_part as xs = p @ [last xs]"
    using pre_part_last by blast
  with assms(2) have "\<forall>e \<in> set p. fst e \<le> fst (last xs)"
    by (auto simp: sorted_append)
  with p assms(3) False show ?thesis by auto
qed

lemma post_bound:
  assumes "sorted (map fst (L @ post_part ys bs))"
    and "ys \<noteq> [] \<Longrightarrow> (k::int) \<le> fst (hd ys)"
  shows "\<forall>e \<in> set (post_part ys bs). k \<le> fst e"
proof (cases ys)
  case Nil
  then show ?thesis by simp
next
  case (Cons y ys')
  then have "post_part ys bs = y # interleave bs ys'" by (simp add: post_part_def)
  with assms Cons show ?thesis by (auto simp: sorted_append)
qed

lemma length_shift_up: "length (shift_up xs) = length xs"
  by (cases xs) (simp_all add: shift_up_def)

lemma set_shift_up: "set (shift_up xs) \<subseteq> set xs"
  by (cases xs) (auto simp: shift_up_def dest: in_set_butlastD)

lemma sorted_shift_up:
  assumes "sorted (map fst xs)"
  shows "sorted (map fst (shift_up xs))"
proof (cases xs)
  case Nil
  then show ?thesis by (simp add: shift_up_def)
next
  case (Cons x xs')
  have "sorted (map fst (butlast xs))"
    using assms sorted_butlast [of "map fst xs"] by (cases "xs = []") (simp_all add: map_butlast)
  moreover have "\<forall>e \<in> set (butlast xs). fst x \<le> fst e"
    using assms Cons by (auto dest!: in_set_butlastD)
  ultimately show ?thesis using Cons by (simp add: shift_up_def)
qed

lemma ins_rel_ctx:
  assumes "ins_rel k v M M'" "\<forall>e \<in> set P. fst e \<le> k" "\<forall>e \<in> set Q. k \<le> fst e"
  shows "ins_rel k v (P @ M @ Q) (P @ M' @ Q)"
proof -
  from assms(1) consider
    (new) l r where "M = l @ r" "M' = l @ (k, v) # r"
      "\<forall>e \<in> set l. fst e \<le> k" "\<forall>e \<in> set r. k \<le> fst e"
    | (upd) l v0 b r where "M = l @ (k, v0) # b @ r" "M' = l @ (k, v) # shift_up b @ r"
    unfolding ins_rel_def by blast
  then show ?thesis
  proof cases
    case new
    have "P @ M @ Q = (P @ l) @ (r @ Q)" "P @ M' @ Q = (P @ l) @ (k, v) # (r @ Q)"
      using new by simp_all
    moreover have "\<forall>e \<in> set (P @ l). fst e \<le> k" "\<forall>e \<in> set (r @ Q). k \<le> fst e"
      using new assms by auto
    ultimately show ?thesis unfolding ins_rel_def by blast
  next
    case upd
    have "P @ M @ Q = (P @ l) @ (k, v0) # b @ (r @ Q)"
      "P @ M' @ Q = (P @ l) @ (k, v) # shift_up b @ (r @ Q)"
      using upd by simp_all
    then show ?thesis unfolding ins_rel_def by blast
  qed
qed

text \<open>The leaf case of the insertion.\<close>

lemma leaf_ins_rel:
  assumes "sorted (map fst es)" "j = insert_scan es k (length es)"
  shows "ins_rel k v es
     (if 0 < j \<and> fst (es ! (j - 1)) = k then take (j - 1) es @ [(k, v)] @ shift_up (drop j es)
      else take j es @ [(k, v)] @ drop j es)"
proof -
  have jle: "j \<le> length es" using assms(2) insert_scan_le by simp
  show ?thesis
  proof (cases "0 < j \<and> fst (es ! (j - 1)) = k")
    case True
    then have lt: "j - 1 < length es" using jle by linarith
    then obtain xs m ys where es: "es = xs @ m # ys" "length xs = j - 1"
      using split_list_at [of "j - 1" es] by auto
    with True have "m = (k, snd m)" by (simp add: nth_append prod_eq_iff)
    then obtain v0 where m: "m = (k, v0)" ..
    have j: "j = Suc (length xs)" using True es(2) by simp
    have "take (j - 1) es @ [(k, v)] @ shift_up (drop j es) = xs @ (k, v) # shift_up ys @ []"
      using es(1) j by simp
    moreover have "es = xs @ (k, v0) # ys @ []" using es m by simp
    ultimately have "\<exists>l v0 b r. es = l @ (k, v0) # b @ r
        \<and> take (j - 1) es @ [(k, v)] @ shift_up (drop j es) = l @ (k, v) # shift_up b @ r"
      by blast
    with True show ?thesis unfolding ins_rel_def by simp
  next
    case False
    have lo: "\<forall>e \<in> set (take j es). fst e \<le> k"
    proof
      fix e assume "e \<in> set (take j es)"
      then obtain i where i: "i < j" "e = es ! i"
        using jle by (auto simp: in_set_conv_nth)
      then have "0 < j" by simp
      then have "fst (es ! (j - 1)) \<le> k" using assms(2) insert_scan_stop by simp
      moreover have "fst (es ! i) \<le> fst (es ! (j - 1))"
        using assms(1) i jle by (simp add: sorted_iff_nth_mono)
      ultimately show "fst e \<le> k" using i by simp
    qed
    have hi: "\<forall>e \<in> set (drop j es). k \<le> fst e"
    proof
      fix e assume "e \<in> set (drop j es)"
      then obtain i where i: "i < length es - j" "e = es ! (j + i)"
        using jle by (auto simp: in_set_conv_nth)
      then have "k < fst (es ! (j + i))"
        using insert_scan_above [of es k "length es" "j + i"] assms(2) by simp
      with i show "k \<le> fst e" by simp
    qed
    have "es = take j es @ drop j es" by simp
    with False lo hi show ?thesis unfolding ins_rel_def
      by (metis append_Cons append_Nil)
  qed
qed

section \<open>Insertion into a node that is not full\<close>

lemma insert_nonfull_ok:
  assumes "wf_node (Suc n) x" "length (entries x) < 2 * n + 1" "sorted (map fst (inorder x))"
  shows "wf_node (Suc n) (bt_insert_nonfull (Suc n) x k v) \<and>
         ins_rel k v (inorder x) (inorder (bt_insert_nonfull (Suc n) x k v))"
  using assms
proof (induction "Suc n" x k v rule: bt_insert_nonfull.induct)
  case (1 es cs lf k v)
  define j where "j = insert_scan es k (length es)"
  have jle: "j \<le> length es" unfolding j_def by (rule insert_scan_le)
  note wf = "1.prems"(1) and so = "1.prems"(3)
  have nf: "length es < 2 * n + 1" using "1.prems"(2) by simp
  show ?case
  proof (cases lf)
    case True
    then have lf: "lf = True" by simp
    have res: "bt_insert_nonfull (Suc n) (BTreeNode es cs True) k v =
        BTreeNode (if 0 < j \<and> fst (es ! (j - 1)) = k
                   then take (j - 1) es @ [(k, v)] @ shift_up (drop j es)
                   else take j es @ [(k, v)] @ drop j es) cs True"
      using True by (simp add: j_def Let_def)
    have "ins_rel k v es (if 0 < j \<and> fst (es ! (j - 1)) = k
                   then take (j - 1) es @ [(k, v)] @ shift_up (drop j es)
                   else take j es @ [(k, v)] @ drop j es)"
      using so True by (intro leaf_ins_rel) (simp_all add: j_def)
    moreover have "wf_node (Suc n) (BTreeNode (if 0 < j \<and> fst (es ! (j - 1)) = k
                   then take (j - 1) es @ [(k, v)] @ shift_up (drop j es)
                   else take j es @ [(k, v)] @ drop j es) cs True)"
      using wf nf True jle by (auto simp: length_shift_up)
    ultimately show ?thesis unfolding lf res by simp
  next
    case False
    then have lf: "lf = False" by simp
    from wf False have lcs: "length cs = Suc (length es)"
      and wfc: "\<forall>c \<in> set cs. wf_node (Suc n) c" by simp_all
    obtain xs ys where es: "es = xs @ ys" and lxs: "j = length xs"
      using split_list_le [OF jle] by auto
    have jlt: "j < length cs" using jle lcs by simp
    then obtain as c bs where cs: "cs = as @ c # bs" and las: "length as = length xs"
      using split_list_at [of j cs] lxs by auto
    have csj: "cs ! j = c" using cs las lxs by (simp add: nth_append)
    define P where "P = pre_part (map inorder as) xs"
    define Q where "Q = post_part ys (map inorder bs)"
    have io: "inorder (BTreeNode es cs False) = P @ inorder c @ Q"
      using es cs las inorder_decomp [of as xs ys c bs] by (simp add: P_def Q_def)
    have sP: "sorted (map fst (P @ inorder c @ Q))" using so io lf by simp
    have Pb: "\<forall>e \<in> set P. fst e \<le> k"
      unfolding P_def
    proof (rule pre_bound [where R = "inorder c @ Q"])
      show "length (map inorder as) = length xs" using las by simp
      show "sorted (map fst (pre_part (map inorder as) xs @ inorder c @ Q))"
        using sP by (simp add: P_def)
      assume ne: "xs \<noteq> []"
      then have "0 < j" using lxs by simp
      then have "fst (es ! (j - 1)) \<le> k"
        using insert_scan_stop [of es k "length es"] by (simp add: j_def)
      moreover have "es ! (j - 1) = last xs"
        using ne es lxs by (simp add: nth_append last_conv_nth)
      ultimately show "fst (last xs) \<le> k" by simp
    qed
    have Qb: "\<forall>e \<in> set Q. k \<le> fst e"
      unfolding Q_def
    proof (rule post_bound [where L = "P @ inorder c"])
      show "sorted (map fst ((P @ inorder c) @ post_part ys (map inorder bs)))"
        using sP by (simp add: Q_def)
      assume ne: "ys \<noteq> []"
      then have "j < length es" using es lxs by simp
      then have "k < fst (es ! j)"
        using insert_scan_above [of es k "length es" j] by (simp add: j_def)
      moreover have "es ! j = hd ys"
        using ne es lxs by (simp add: nth_append hd_conv_nth)
      ultimately show "k \<le> fst (hd ys)" by simp
    qed
    have wc: "wf_node (Suc n) c" using wfc cs by simp
    have sc: "sorted (map fst (inorder c))" using sP by (simp add: sorted_append)
    have wrest: "\<forall>c \<in> set as \<union> set bs. wf_node (Suc n) c" using wfc cs by simp
    show ?thesis
    proof (cases "length (entries c) = 2 * Suc n - 1")
      case nosplit: False
      have res: "bt_insert_nonfull (Suc n) (BTreeNode es cs False) k v =
          BTreeNode es (as @ bt_insert_nonfull (Suc n) c k v # bs) False"
        using jlt nosplit csj cs las lxs
        by (simp add: j_def [symmetric] Let_def list_update_append)
      have "length (entries c) < 2 * n + 1"
        using wc nosplit by (cases c) simp
      with "1.hyps"(2) [OF j_def False jlt] csj nosplit wc sc lf
      have ih: "wf_node (Suc n) (bt_insert_nonfull (Suc n) c k v)"
        "ins_rel k v (inorder c) (inorder (bt_insert_nonfull (Suc n) c k v))"
        by simp_all
      have "inorder (BTreeNode es (as @ bt_insert_nonfull (Suc n) c k v # bs) False)
          = P @ inorder (bt_insert_nonfull (Suc n) c k v) @ Q"
        using es las inorder_decomp [of as xs ys _ bs] by (simp add: P_def Q_def)
      moreover have "wf_node (Suc n) (BTreeNode es (as @ bt_insert_nonfull (Suc n) c k v # bs) False)"
        using ih(1) wrest nf lcs cs by auto
      ultimately show ?thesis
        using ins_rel_ctx [OF ih(2) Pb Qb] io unfolding lf res by simp
    next
      case split: True
      then have full: "length (entries c) = 2 * n + 1" by simp
      define lo where "lo = split_lo (Suc n) c"
      define hi where "hi = split_hi (Suc n) c"
      define m where "m = entries c ! n"
      have ioc: "inorder c = inorder lo @ m # inorder hi"
        unfolding lo_def hi_def m_def by (rule split_inorder [OF wc full])
      note sw = split_wf [OF wc full, folded lo_def hi_def]
      have x': "bt_split_child (Suc n) (BTreeNode es cs False) (length xs) =
          BTreeNode (xs @ m # ys) (as @ lo # hi # bs) False"
        using es cs las lxs
        by (simp add: bt_split_child_eq lo_def hi_def m_def nth_append)
      have slo: "sorted (map fst (inorder lo))" and shi: "sorted (map fst (inorder hi))"
        and lom: "\<forall>e \<in> set (inorder lo). fst e \<le> fst m"
        and him: "\<forall>e \<in> set (inorder hi). fst m \<le> fst e"
        using sc ioc by (auto simp: sorted_append)
      show ?thesis
      proof (cases "fst m < k")
        case right: True
        have res: "bt_insert_nonfull (Suc n) (BTreeNode es cs False) k v =
            BTreeNode (xs @ m # ys) (as @ lo # bt_insert_nonfull (Suc n) hi k v # bs) False"
          using jlt split csj right las lxs
          by (simp add: j_def [symmetric] Let_def x' nth_append list_update_append)
        have "children (bt_split_child (Suc n) (BTreeNode es cs False) j) ! Suc j = hi"
          using las lxs by (simp add: x' nth_append)
        moreover have "fst (entries (bt_split_child (Suc n) (BTreeNode es cs False) j) ! j) < k"
          using right lxs by (simp add: x' nth_append)
        ultimately have ih: "wf_node (Suc n) (bt_insert_nonfull (Suc n) hi k v)"
          "ins_rel k v (inorder hi) (inorder (bt_insert_nonfull (Suc n) hi k v))"
          using "1.hyps"(1) [OF j_def False jlt _ refl refl] csj split sw shi lf by simp_all
        have "inorder (BTreeNode ((xs @ [m]) @ ys)
              ((as @ [lo]) @ bt_insert_nonfull (Suc n) hi k v # bs) False)
            = (P @ inorder lo @ [m]) @ inorder (bt_insert_nonfull (Suc n) hi k v) @ Q"
          using las by (subst inorder_decomp) (simp_all add: P_def Q_def pre_part_snoc)
        moreover have "inorder (BTreeNode es cs False) = (P @ inorder lo @ [m]) @ inorder hi @ Q"
          using io ioc by simp
        moreover have "\<forall>e \<in> set (P @ inorder lo @ [m]). fst e \<le> k"
          using Pb lom right by auto
        moreover have "wf_node (Suc n)
            (BTreeNode (xs @ m # ys) (as @ lo # bt_insert_nonfull (Suc n) hi k v # bs) False)"
          using ih(1) sw(1) wrest nf lcs cs es by auto
        ultimately show ?thesis
          using ins_rel_ctx [OF ih(2) _ Qb, of "P @ inorder lo @ [m]"] unfolding lf res by simp
      next
        case left: False
        have res: "bt_insert_nonfull (Suc n) (BTreeNode es cs False) k v =
            BTreeNode (xs @ m # ys) (as @ bt_insert_nonfull (Suc n) lo k v # hi # bs) False"
          using jlt split csj left las lxs
          by (simp add: j_def [symmetric] Let_def x' nth_append list_update_append)
        have "children (bt_split_child (Suc n) (BTreeNode es cs False) j) ! j = lo"
          using las lxs by (simp add: x' nth_append)
        moreover have "\<not> fst (entries (bt_split_child (Suc n) (BTreeNode es cs False) j) ! j) < k"
          using left lxs by (simp add: x' nth_append)
        ultimately have ih: "wf_node (Suc n) (bt_insert_nonfull (Suc n) lo k v)"
          "ins_rel k v (inorder lo) (inorder (bt_insert_nonfull (Suc n) lo k v))"
          using "1.hyps"(1) [OF j_def False jlt _ refl refl] csj split sw slo lf by simp_all
        have "inorder (BTreeNode (xs @ m # ys)
              (as @ bt_insert_nonfull (Suc n) lo k v # hi # bs) False)
            = P @ inorder (bt_insert_nonfull (Suc n) lo k v) @ (m # inorder hi @ Q)"
          using las by (subst inorder_decomp) (simp_all add: P_def Q_def post_part_Cons)
        moreover have "inorder (BTreeNode es cs False) = P @ inorder lo @ (m # inorder hi @ Q)"
          using io ioc by simp
        moreover have "\<forall>e \<in> set (m # inorder hi @ Q). k \<le> fst e"
          using Qb him left by auto
        moreover have "wf_node (Suc n)
            (BTreeNode (xs @ m # ys) (as @ bt_insert_nonfull (Suc n) lo k v # hi # bs) False)"
          using ih(1) sw(2) wrest nf lcs cs es by auto
        ultimately show ?thesis
          using ins_rel_ctx [OF ih(2) Pb, of "m # inorder hi @ Q"] unfolding lf res by simp
      qed
    qed
  qed
qed

section \<open>What an insertion does to the entries\<close>

lemma ins_rel_set_sub: "ins_rel k v xs ys \<Longrightarrow> set ys \<subseteq> insert (k, v) (set xs)"
  unfolding ins_rel_def using set_shift_up by fastforce

lemma ins_rel_keys_sub: "ins_rel k v xs ys \<Longrightarrow> fst ` set ys \<subseteq> insert k (fst ` set xs)"
  using ins_rel_set_sub [of k v xs ys] by auto

lemma ins_rel_sorted:
  assumes "ins_rel k v xs ys" "sorted (map fst xs)"
  shows "sorted (map fst ys)"
proof -
  from assms(1) consider
    (new) l r where "xs = l @ r" "ys = l @ (k, v) # r"
      "\<forall>e \<in> set l. fst e \<le> k" "\<forall>e \<in> set r. k \<le> fst e"
    | (upd) l v0 b r where "xs = l @ (k, v0) # b @ r" "ys = l @ (k, v) # shift_up b @ r"
    unfolding ins_rel_def by blast
  then show ?thesis
  proof cases
    case new
    with assms(2) show ?thesis by (auto simp: sorted_append)
  next
    case upd
    have "sorted (map fst b)" using assms(2) upd(1) by (simp add: sorted_append)
    then have "sorted (map fst (shift_up b))" by (rule sorted_shift_up)
    moreover have "set (shift_up b) \<subseteq> set b" by (rule set_shift_up)
    ultimately show ?thesis using assms(2) upd
      by (simp add: sorted_append) blast
  qed
qed

lemma ins_rel_length: "ins_rel k v xs ys \<Longrightarrow> length ys \<le> Suc (length xs)"
  unfolding ins_rel_def by (auto simp: length_shift_up)

lemma ins_rel_fresh:
  assumes "ins_rel k v xs ys" "k \<notin> fst ` set xs"
  shows "\<exists>l r. xs = l @ r \<and> ys = l @ (k, v) # r
          \<and> (\<forall>e \<in> set l. fst e < k) \<and> (\<forall>e \<in> set r. k < fst e)"
proof -
  from assms obtain l r where lr: "xs = l @ r" "ys = l @ (k, v) # r"
      "\<forall>e \<in> set l. fst e \<le> k" "\<forall>e \<in> set r. k \<le> fst e"
    unfolding ins_rel_def by force
  have "\<forall>e \<in> set l. fst e \<noteq> k" "\<forall>e \<in> set r. fst e \<noteq> k"
    using assms(2) lr(1) by auto
  with lr have "\<forall>e \<in> set l. fst e < k" "\<forall>e \<in> set r. k < fst e"
    by (auto simp: order_less_le)
  with lr show ?thesis by blast
qed

lemma ins_rel_fresh_length:
  "ins_rel k v xs ys \<Longrightarrow> k \<notin> fst ` set xs \<Longrightarrow> length ys = Suc (length xs)"
  using ins_rel_fresh by fastforce

lemma ins_rel_fresh_strict:
  assumes "ins_rel k v xs ys" "k \<notin> fst ` set xs" "sorted_wrt (<) (map fst xs)"
  shows "sorted_wrt (<) (map fst ys)"
proof -
  from ins_rel_fresh [OF assms(1,2)] obtain l r where lr: "xs = l @ r" "ys = l @ (k, v) # r"
      "\<forall>e \<in> set l. fst e < k" "\<forall>e \<in> set r. k < fst e" by blast
  with assms(3) show ?thesis
    by (auto simp: sorted_wrt_append) 
qed

lemma ins_rel_fresh_lookup:
  assumes "ins_rel k v xs ys" "k \<notin> fst ` set xs"
  shows "lookup ys k' = (if k' = k then v else lookup xs k')"
proof -
  from ins_rel_fresh [OF assms(1,2)] obtain l r where lr: "xs = l @ r" "ys = l @ (k, v) # r"
      "\<forall>e \<in> set l. fst e < k" "\<forall>e \<in> set r. k < fst e" by blast
  have "map_of l k = None" using lr(3) by (force simp: map_of_eq_None_iff)
  then show ?thesis using lr(1,2)
    by (auto simp: lookup_def map_add_def split: option.splits)
qed

lemma ins_rel_set_fresh:
  "ins_rel k v xs ys \<Longrightarrow> k \<notin> fst ` set xs \<Longrightarrow> set ys = insert (k, v) (set xs)"
  using ins_rel_fresh by fastforce

section \<open>Entries and counts\<close>

lemma set_interleave:
  "length cs = Suc (length es) \<Longrightarrow> set (interleave cs es) = (\<Union>c \<in> set cs. set c) \<union> set es"
proof (induction es arbitrary: cs)
  case Nil
  then obtain c where "cs = [c]" by (cases cs) auto
  then show ?case by simp
next
  case (Cons e es)
  then obtain c cs' where "cs = c # cs'" "length cs' = Suc (length es)" by (cases cs) auto
  with Cons.IH [of cs'] show ?case by auto
qed

lemma length_interleave:
  "length cs = Suc (length es) \<Longrightarrow>
   length (interleave cs es) = sum_list (map length cs) + length es"
proof (induction es arbitrary: cs)
  case Nil
  then obtain c where "cs = [c]" by (cases cs) auto
  then show ?case by simp
next
  case (Cons e es)
  then obtain c cs' where "cs = c # cs'" "length cs' = Suc (length es)" by (cases cs) auto
  with Cons.IH [of cs'] show ?case by auto
qed

lemma inorder_entries: "wf_node t n \<Longrightarrow> set (entries n) \<subseteq> set (inorder n)"
  by (cases n) (auto simp: set_interleave)

lemma inorder_child:
  "wf_node t (BTreeNode es cs False) \<Longrightarrow> c \<in> set cs \<Longrightarrow>
   set (inorder c) \<subseteq> set (inorder (BTreeNode es cs False))"
  by (auto simp: set_interleave)

lemma count_keys_inorder: "wf_node t n \<Longrightarrow> bt_count_keys_node n = length (inorder n)"
proof (induction n rule: bt_count_keys_node.induct)
  case (1 es cs lf)
  show ?case
  proof (cases lf)
    case True
    then show ?thesis by simp
  next
    case False
    with "1.prems" have lcs: "length cs = Suc (length es)" and wfc: "\<forall>c \<in> set cs. wf_node t c"
      by simp_all
    have "map bt_count_keys_node cs = map (\<lambda>c. length (inorder c)) cs"
      using "1.IH" False lcs wfc by (intro map_cong) auto
    then have "sum_list (map bt_count_keys_node cs) = sum_list (map (\<lambda>c. length (inorder c)) cs)"
      by (rule arg_cong)
    then show ?thesis using False lcs by (simp add: length_interleave comp_def)
  qed
qed

section \<open>Search\<close>

lemma map_of_notin: "k \<notin> fst ` set xs \<Longrightarrow> map_of xs k = None"
  by (simp add: map_of_eq_None_iff)

lemma lookup_notin: "k \<notin> fst ` set xs \<Longrightarrow> lookup xs k = NULL"
  by (simp add: lookup_def map_of_notin)

lemma lookup_mid:
  "k \<notin> fst ` set P \<Longrightarrow> k \<notin> fst ` set Q \<Longrightarrow> lookup (P @ M @ Q) k = lookup M k"
  by (simp add: lookup_def map_add_def map_of_notin split: option.splits)

lemma lookup_distinct:
  "distinct (map fst xs) \<Longrightarrow> (k, v) \<in> set xs \<Longrightarrow> lookup xs k = v"
  by (simp add: lookup_def)

lemma lookup_mem: "lookup xs k \<noteq> NULL \<Longrightarrow> (k, lookup xs k) \<in> set xs"
  by (auto simp: lookup_def split: option.splits dest: map_of_SomeD)

lemma search_node_mem:
  "wf_node t n \<Longrightarrow> fst (bt_search_node n k) \<noteq> NULL \<Longrightarrow>
   (k, fst (bt_search_node n k)) \<in> set (inorder n)"
proof (induction n k rule: bt_search_node.induct)
  case (1 es cs lf k)
  define i where "i = search_scan es k 0"
  show ?case
  proof (cases "i < length es \<and> fst (es ! i) = k")
    case True
    then have "fst (bt_search_node (BTreeNode es cs lf) k) = snd (es ! i)"
      by (simp add: i_def [symmetric] Let_def)
    moreover have "es ! i \<in> set (inorder (BTreeNode es cs lf))"
      using inorder_entries [OF "1.prems"(1)] True nth_mem [of i es]
      by (auto simp del: inorder.simps)
    ultimately show ?thesis using True by (auto simp add: prod_eq_iff simp del: inorder.simps)
  next
    case nf: False
    show ?thesis
    proof (cases "lf \<or> \<not> i < length cs")
      case True
      with nf have "fst (bt_search_node (BTreeNode es cs lf) k) = NULL"
        by (auto simp: i_def [symmetric] Let_def)
      with "1.prems" show ?thesis by simp
    next
      case False
      then have lf: "lf = False" and ilt: "i < length cs" by simp_all
      have res: "fst (bt_search_node (BTreeNode es cs False) k) = fst (bt_search_node (cs ! i) k)"
        using nf ilt by (auto simp add: i_def [symmetric] Let_def split: prod.splits)
      have wc: "wf_node t (cs ! i)" using "1.prems"(1) ilt lf by simp
      have "(k, fst (bt_search_node (cs ! i) k)) \<in> set (inorder (cs ! i))"
        using "1.IH" [OF i_def _ _ ilt wc] nf "1.prems"(2) lf res by auto
      moreover have "set (inorder (cs ! i)) \<subseteq> set (inorder (BTreeNode es cs False))"
        using "1.prems"(1) ilt lf by (intro inorder_child [of t]) simp_all
      ultimately show ?thesis unfolding lf res by blast
    qed
  qed
qed

lemma search_node_lookup:
  "wf_node t n \<Longrightarrow> sorted_wrt (<) (map fst (inorder n)) \<Longrightarrow>
   fst (bt_search_node n k) = lookup (inorder n) k"
proof (induction n k rule: bt_search_node.induct)
  case (1 es cs lf k)
  define i where "i = search_scan es k 0"
  have ile: "i \<le> length es" unfolding i_def using search_scan_bounds [of 0 es k] by simp
  note wf = "1.prems"(1) and st = "1.prems"(2)
  have dist: "distinct (map fst (inorder (BTreeNode es cs lf)))"
    using st strict_sorted_iff by blast
  have so: "sorted (map fst (inorder (BTreeNode es cs lf)))"
    using st strict_sorted_iff by blast
  obtain xs ys where es: "es = xs @ ys" and lxs: "i = length xs"
    using split_list_le [OF ile] by auto
  have lastx: "fst (last xs) < k" if "xs \<noteq> []"
  proof -
    have "fst (es ! (i - 1)) < k"
      using that lxs search_scan_below [of 0 "i - 1" es k] by (simp add: i_def)
    moreover have "es ! (i - 1) = last xs"
      using that es lxs by (simp add: nth_append last_conv_nth)
    ultimately show ?thesis by simp
  qed
  have hdy: "k \<le> fst (hd ys)" "es ! i = hd ys" if "ys \<noteq> []"
  proof -
    have "i < length es" using that es lxs by simp
    then have "k \<le> fst (es ! i)" using search_scan_stop [of es k 0] by (simp add: i_def)
    moreover show "es ! i = hd ys"
      using that es lxs by (simp add: nth_append hd_conv_nth)
    ultimately show "k \<le> fst (hd ys)" by simp
  qed
  show ?case
  proof (cases "i < length es \<and> fst (es ! i) = k")
    case True
    then have "fst (bt_search_node (BTreeNode es cs lf) k) = snd (es ! i)"
      by (simp add: i_def [symmetric] Let_def)
    moreover have "es ! i \<in> set (inorder (BTreeNode es cs lf))"
      using inorder_entries [OF wf] True nth_mem [of i es]
      by (auto simp del: inorder.simps)
    then have "(k, snd (es ! i)) \<in> set (inorder (BTreeNode es cs lf))"
      using True by (auto simp add: prod_eq_iff simp del: inorder.simps)
    ultimately show ?thesis using lookup_distinct [OF dist] by simp
  next
    case nf: False
    then have hdy': "k < fst (hd ys)" if "ys \<noteq> []"
      using that hdy es lxs by (auto simp: order_less_le)
    show ?thesis
    proof (cases lf)
      case True
      then have lf: "lf = True" by simp
      have res: "fst (bt_search_node (BTreeNode es cs True) k) = NULL"
        using nf by (auto simp: i_def [symmetric] Let_def)
      have "\<forall>e \<in> set xs. fst e < k"
      proof (cases "xs = []")
        case False
        then obtain p where "xs = p @ [last xs]" by (metis append_butlast_last_id)
        then have "\<forall>e \<in> set p. fst e \<le> fst (last xs)"
          using so es lf by (metis (no_types, lifting) inorder.simps map_append sorted_append
              list.set_intros(1) list.simps(9) image_eqI list.set_map)
        then show ?thesis using lastx [OF False] \<open>xs = p @ [last xs]\<close>
          by (metis Un_iff empty_iff empty_set insert_iff list.simps(15) order_le_less_trans set_append)
      qed simp
      moreover have "\<forall>e \<in> set ys. k < fst e"
      proof (cases ys)
        case (Cons y ys')
        then have "\<forall>e \<in> set ys'. fst y \<le> fst e"
          using so es lf by (auto simp: sorted_append)
        then show ?thesis using hdy' Cons by auto
      qed simp
      ultimately have "k \<notin> fst ` set es" using es by auto
      then show ?thesis unfolding lf res by (simp add: lookup_notin)
    next
      case False
      then have lf: "lf = False" by simp
      from wf False have lcs: "length cs = Suc (length es)"
        and wfc: "\<forall>c \<in> set cs. wf_node t c" by simp_all
      have ilt: "i < length cs" using ile lcs by simp
      then obtain as c bs where cs: "cs = as @ c # bs" and las: "length as = length xs"
        using split_list_at [of i cs] lxs by auto
      have csi: "cs ! i = c" using cs las lxs by (simp add: nth_append)
      define P where "P = pre_part (map inorder as) xs"
      define Q where "Q = post_part ys (map inorder bs)"
      have io: "inorder (BTreeNode es cs False) = P @ inorder c @ Q"
        using es cs las inorder_decomp [of as xs ys c bs] by (simp add: P_def Q_def)
      have sP: "sorted (map fst (P @ inorder c @ Q))" using so io lf by simp
      have stP: "sorted_wrt (<) (map fst (P @ inorder c @ Q))" using st io lf by simp
      have Pb: "\<forall>e \<in> set P. fst e < k"
      proof (cases "xs = []")
        case True
        then show ?thesis by (simp add: P_def)
      next
        case False
        have "\<forall>e \<in> set P. fst e \<le> fst (last xs)"
          unfolding P_def
          by (rule pre_bound [where R = "inorder c @ Q"])
             (use las sP in \<open>simp_all add: P_def\<close>)
        with lastx [OF False] show ?thesis by fastforce
      qed
      have Qb: "\<forall>e \<in> set Q. k < fst e"
      proof (cases "ys = []")
        case True
        then show ?thesis by (simp add: Q_def)
      next
        case False
        have "\<forall>e \<in> set Q. fst (hd ys) \<le> fst e"
          unfolding Q_def
          by (rule post_bound [where L = "P @ inorder c"])
             (use sP in \<open>simp_all add: Q_def\<close>)
        with hdy' [OF False] show ?thesis by fastforce
      qed
      have res: "fst (bt_search_node (BTreeNode es cs False) k) = fst (bt_search_node c k)"
        using nf ilt csi by (auto simp add: i_def [symmetric] Let_def split: prod.splits)
      have wc: "wf_node t c" using wfc cs by simp
      have sc: "sorted_wrt (<) (map fst (inorder c))" using stP by (simp add: sorted_wrt_append)
      have "fst (bt_search_node c k) = lookup (inorder c) k"
        using "1.IH" [OF i_def _ False ilt] nf csi wc sc by auto
      moreover have "lookup (P @ inorder c @ Q) k = lookup (inorder c) k"
        using Pb Qb by (intro lookup_mid) auto
      ultimately show ?thesis unfolding lf res io by simp
    qed
  qed
qed

lemma search_node_visits: "1 \<le> snd (bt_search_node n k)"
  by (induction n k rule: bt_search_node.induct) (auto simp: Let_def split: prod.splits)

section \<open>Trees\<close>

lemma bt_create_wf: "2 \<le> t \<Longrightarrow> wf_tree (bt_create t)"
  by (simp add: wf_tree_def bt_create_def bt_new_node_def)

lemma bt_create_inorder: "inorder (bt_root (bt_create t)) = []"
  by (simp add: bt_create_def bt_new_node_def)

lemma bt_create_t: "bt_t (bt_create t) = t"
  by (simp add: bt_create_def)

lemma bt_insert_t: "bt_t (bt_insert tree k v) = bt_t tree"
  by (simp add: bt_insert_def Let_def)

lemma bt_insert_ok:
  assumes "wf_tree tree" "sorted_tree tree"
  shows "wf_tree (bt_insert tree k v) \<and>
         ins_rel k v (inorder (bt_root tree)) (inorder (bt_root (bt_insert tree k v)))"
proof -
  from assms(1) obtain n where t: "bt_t tree = Suc n" and n: "1 \<le> n"
    by (cases "bt_t tree") (auto simp: wf_tree_def)
  define r where "r = bt_root tree"
  have wr: "wf_node (Suc n) r" using assms(1) t by (simp add: wf_tree_def r_def)
  have sr: "sorted (map fst (inorder r))" using assms(2) by (simp add: sorted_tree_def r_def)
  show ?thesis
  proof (cases "length (entries r) = 2 * Suc n - 1")
    case False
    then have res: "bt_root (bt_insert tree k v) = bt_insert_nonfull (Suc n) r k v"
      by (simp add: bt_insert_def Let_def t r_def)
    have "length (entries r) < 2 * n + 1" using wr False by (cases r) simp
    from insert_nonfull_ok [OF wr this sr, of k v] show ?thesis
      using n by (simp add: wf_tree_def res bt_insert_t t r_def [symmetric])
  next
    case True
    then have full: "length (entries r) = 2 * n + 1" by simp
    define lo where "lo = split_lo (Suc n) r"
    define hi where "hi = split_hi (Suc n) r"
    define m where "m = entries r ! n"
    define s' where "s' = BTreeNode [m] [lo, hi] False"
    have s': "bt_split_child (Suc n) (BTreeNode [] [r] False) 0 = s'"
      by (simp add: bt_split_child_eq lo_def hi_def m_def s'_def)
    have res: "bt_root (bt_insert tree k v) = bt_insert_nonfull (Suc n) s' k v"
      using True by (simp add: bt_insert_def Let_def t r_def [symmetric] s')
    have ior: "inorder r = inorder lo @ m # inorder hi"
      unfolding lo_def hi_def m_def by (rule split_inorder [OF wr full])
    note sw = split_wf [OF wr full, folded lo_def hi_def]
    have ios: "inorder s' = inorder r" using ior by (simp add: s'_def)
    have ws: "wf_node (Suc n) s'" using sw by (simp add: s'_def)
    have nf: "length (entries s') < 2 * n + 1" using n by (simp add: s'_def)
    have ss: "sorted (map fst (inorder s'))" using sr ios by simp
    from insert_nonfull_ok [OF ws nf ss, of k v] show ?thesis
      using n by (simp add: wf_tree_def res bt_insert_t t r_def [symmetric] ios)
  qed
qed

lemma bt_insert_wf: "wf_tree tree \<Longrightarrow> sorted_tree tree \<Longrightarrow> wf_tree (bt_insert tree k v)"
  using bt_insert_ok by blast

lemma bt_insert_sorted:
  "wf_tree tree \<Longrightarrow> sorted_tree tree \<Longrightarrow> sorted_tree (bt_insert tree k v)"
  using bt_insert_ok [of tree k v] ins_rel_sorted by (auto simp: sorted_tree_def)

lemma bt_insert_keys_sub:
  "wf_tree tree \<Longrightarrow> sorted_tree tree \<Longrightarrow> keys_of (bt_insert tree k v) \<subseteq> insert k (keys_of tree)"
  using ins_rel_keys_sub [OF conjunct2 [OF bt_insert_ok [of tree k v]]] by (simp add: keys_of_def)

lemma bt_insert_keys:
  assumes "wf_tree tree" "sorted_tree tree" "k \<notin> keys_of tree"
  shows "keys_of (bt_insert tree k v) = insert k (keys_of tree)"
proof -
  have "ins_rel k v (inorder (bt_root tree)) (inorder (bt_root (bt_insert tree k v)))"
    using bt_insert_ok [OF assms(1,2)] by simp
  moreover have "k \<notin> fst ` set (inorder (bt_root tree))" using assms(3) by (simp add: keys_of_def)
  ultimately have "set (inorder (bt_root (bt_insert tree k v)))
      = insert (k, v) (set (inorder (bt_root tree)))"
    by (rule ins_rel_set_fresh)
  then show ?thesis by (simp add: keys_of_def)
qed

lemma bt_count_keys_inorder:
  "wf_tree tree \<Longrightarrow> bt_count_keys tree = length (inorder (bt_root tree))"
  using count_keys_inorder [of "bt_t tree" "bt_root tree"]
  by (simp add: bt_count_keys_def wf_tree_def)

lemma bt_insert_count_le:
  "wf_tree tree \<Longrightarrow> sorted_tree tree \<Longrightarrow>
   bt_count_keys (bt_insert tree k v) \<le> Suc (bt_count_keys tree)"
  using bt_insert_ok [of tree k v] ins_rel_length
  by (auto simp: bt_count_keys_inorder)

lemma strict_imp_sorted: "strict_tree tree \<Longrightarrow> sorted_tree tree"
  by (simp add: strict_tree_def sorted_tree_def strict_sorted_iff)

lemma bt_insert_fresh:
  assumes "wf_tree tree" "strict_tree tree" "k \<notin> keys_of tree"
  shows "strict_tree (bt_insert tree k v)"
    and "lookup (inorder (bt_root (bt_insert tree k v))) k' =
           (if k' = k then v else lookup (inorder (bt_root tree)) k')"
    and "bt_count_keys (bt_insert tree k v) = Suc (bt_count_keys tree)"
    and "set (inorder (bt_root (bt_insert tree k v))) = insert (k, v) (set (inorder (bt_root tree)))"
proof -
  note ok = bt_insert_ok [OF assms(1) strict_imp_sorted [OF assms(2)], of k v]
  then have rel: "ins_rel k v (inorder (bt_root tree)) (inorder (bt_root (bt_insert tree k v)))"
    by simp
  have fresh: "k \<notin> fst ` set (inorder (bt_root tree))" using assms(3) by (simp add: keys_of_def)
  show "strict_tree (bt_insert tree k v)"
    using ins_rel_fresh_strict [OF rel fresh] assms(2) by (simp add: strict_tree_def)
  show "lookup (inorder (bt_root (bt_insert tree k v))) k' =
           (if k' = k then v else lookup (inorder (bt_root tree)) k')"
    by (rule ins_rel_fresh_lookup [OF rel fresh])
  show "bt_count_keys (bt_insert tree k v) = Suc (bt_count_keys tree)"
    using ins_rel_fresh_length [OF rel fresh] ok assms(1) by (simp add: bt_count_keys_inorder)
  show "set (inorder (bt_root (bt_insert tree k v))) = insert (k, v) (set (inorder (bt_root tree)))"
    by (rule ins_rel_set_fresh [OF rel fresh])
qed

lemma bt_search_lookup:
  "wf_tree tree \<Longrightarrow> strict_tree tree \<Longrightarrow>
   fst (bt_search tree k s) = lookup (inorder (bt_root tree)) k"
  using search_node_lookup [of "bt_t tree" "bt_root tree" k]
  by (simp add: bt_search_def wf_tree_def strict_tree_def case_prod_beta)

lemma bt_search_mem:
  "wf_tree tree \<Longrightarrow> fst (bt_search tree k s) \<noteq> NULL \<Longrightarrow>
   (k, fst (bt_search tree k s)) \<in> set (inorder (bt_root tree))"
  using search_node_mem [of "bt_t tree" "bt_root tree" k]
  by (simp add: bt_search_def wf_tree_def case_prod_beta)

lemma bt_search_key:
  "wf_tree tree \<Longrightarrow> fst (bt_search tree k s) \<noteq> NULL \<Longrightarrow> k \<in> keys_of tree"
  using bt_search_mem [of tree k s] by (force simp: keys_of_def)

lemma bt_search_stats_indep: "fst (bt_search tree k s) = fst (bt_search tree k s')"
  by (simp add: bt_search_def case_prod_beta)

lemma bt_search_visits:
  "node_visits (snd (bt_search tree k s)) = node_visits s + int (snd (bt_search_node (bt_root tree) k))"
  by (simp add: bt_search_def case_prod_beta)

section \<open>The index between calls\<close>

lemma exact_fp_simps [simp]:
  "fp_of_size exact_fp n = real n" "fp_mul exact_fp a b = a * b"
  "fp_muladd exact_fp a b c = a * b + c"
  by (simp_all add: exact_fp_def)

text \<open>\<^verbatim>\<open>maybe_promote\<close> returns the index as it was or with one key added to the hot tree.\<close>

lemma maybe_promote_fp_cases:
  "maybe_promote_fp fp idx k = idx \<or>
   (maybe_promote_fp fp idx k
      = idx\<lparr>hot := bt_insert (hot idx) k (fst (bt_search (cold idx) k stats0))\<rparr>
    \<and> inclusive (params idx) \<noteq> 0
    \<and> fp_of_size fp (bt_count_keys (hot idx))
        < fp_mul fp (max_hot_fraction (params idx)) (fp_of_size fp (size_t_of (max_key idx + 1)))
    \<and> fst (bt_search (hot idx) k stats0) = NULL
    \<and> fst (bt_search (cold idx) k stats0) \<noteq> NULL)"
  by (simp add: maybe_promote_fp_def Let_def case_prod_beta stats0_def)

lemma maybe_promote_cases:
  "maybe_promote idx k = idx \<or>
   (maybe_promote idx k = idx\<lparr>hot := bt_insert (hot idx) k (fst (bt_search (cold idx) k stats0))\<rparr>
    \<and> inclusive (params idx) \<noteq> 0
    \<and> real (bt_count_keys (hot idx))
        < max_hot_fraction (params idx) * real (size_t_of (max_key idx + 1))
    \<and> fst (bt_search (hot idx) k stats0) = NULL
    \<and> fst (bt_search (cold idx) k stats0) \<noteq> NULL)"
  using maybe_promote_fp_cases [of exact_fp idx k] by (simp add: maybe_promote_def)

lemma maybe_promote_fp_fields:
  "cold (maybe_promote_fp fp idx k) = cold idx" "max_key (maybe_promote_fp fp idx k) = max_key idx"
  "params (maybe_promote_fp fp idx k) = params idx" "stats (maybe_promote_fp fp idx k) = stats idx"
  "hit_score (maybe_promote_fp fp idx k) = hit_score idx"
  using maybe_promote_fp_cases [of fp idx k] by auto

lemma maybe_promote_fields:
  "cold (maybe_promote idx k) = cold idx" "max_key (maybe_promote idx k) = max_key idx"
  "params (maybe_promote idx k) = params idx" "stats (maybe_promote idx k) = stats idx"
  "hit_score (maybe_promote idx k) = hit_score idx"
  using maybe_promote_cases [of idx k] by auto

lemma maybe_promote_indep:
  "hot (maybe_promote (idx\<lparr>stats := st, hit_score := hs\<rparr>) k) = hot (maybe_promote idx k)"
  by (simp add: maybe_promote_def maybe_promote_fp_def Let_def case_prod_beta)

text \<open>What \<^verbatim>\<open>hc_search\<close> leaves alone, and where the hot tree can change.\<close>

lemma hc_search_fp_fields:
  "cold (snd (hc_search_fp fp idx k)) = cold idx"
  "max_key (snd (hc_search_fp fp idx k)) = max_key idx"
  "params (snd (hc_search_fp fp idx k)) = params idx"
  "length (hit_score (snd (hc_search_fp fp idx k))) = length (hit_score idx)"
  by (simp_all add: hc_search_fp_def Let_def case_prod_beta maybe_promote_fp_fields)

lemma hc_search_fields:
  "cold (snd (hc_search idx k)) = cold idx" "max_key (snd (hc_search idx k)) = max_key idx"
  "params (snd (hc_search idx k)) = params idx"
  "length (hit_score (snd (hc_search idx k))) = length (hit_score idx)"
  by (simp_all add: hc_search_def hc_search_fp_fields)

lemma hc_search_fp_hot:
  "hot (snd (hc_search_fp fp idx k)) = hot idx
   \<or> hot (snd (hc_search_fp fp idx k)) = hot (maybe_promote_fp fp idx k)"
  by (simp add: hc_search_fp_def Let_def case_prod_beta maybe_promote_fp_def)

lemma hc_search_hot:
  "hot (snd (hc_search idx k)) = hot idx \<or> hot (snd (hc_search idx k)) = hot (maybe_promote idx k)"
  using hc_search_fp_hot [of exact_fp idx k] by (simp add: hc_search_def maybe_promote_def)

lemma hc_range_search_fields:
  "cold (snd (hc_range_search idx lo hi)) = cold idx"
  "hot (snd (hc_range_search idx lo hi)) = hot idx"
  "max_key (snd (hc_range_search idx lo hi)) = max_key idx"
  "params (snd (hc_range_search idx lo hi)) = params idx"
  "hit_score (snd (hc_range_search idx lo hi)) = hit_score idx"
  by (simp_all add: hc_range_search_def Let_def case_prod_beta)

lemma hc_insert_fields:
  "hot (fst (hc_insert idx k v)) = hot idx"
  "max_key (fst (hc_insert idx k v)) = max_key idx"
  "params (fst (hc_insert idx k v)) = params idx"
  "hit_score (fst (hc_insert idx k v)) = hit_score idx"
  "stats (fst (hc_insert idx k v)) = stats idx"
  by (simp_all add: hc_insert_def)

lemma hot_ok_fresh:
  assumes "hot_ok idx" "fst (bt_search (hot idx) k s) = NULL"
  shows "k \<notin> keys_of (hot idx)"
proof
  assume "k \<in> keys_of (hot idx)"
  then obtain v where kv: "(k, v) \<in> set (inorder (bt_root (hot idx)))"
    by (auto simp: keys_of_def)
  have "distinct (map fst (inorder (bt_root (hot idx))))"
    using assms(1) by (simp add: hot_ok_def strict_tree_def strict_sorted_iff)
  then have "lookup (inorder (bt_root (hot idx))) k = v"
    using kv by (rule lookup_distinct)
  moreover have "fst (bt_search (hot idx) k s) = lookup (inorder (bt_root (hot idx))) k"
    using assms(1) by (intro bt_search_lookup) (simp_all add: hot_ok_def)
  ultimately have "v = NULL" using assms(2) by simp
  with kv assms(1) show False by (force simp: hot_ok_def)
qed

lemma maybe_promote_fp_inv:
  assumes "hc_inv idx"
  shows "hc_inv (maybe_promote_fp fp idx k)"
proof -
  consider "maybe_promote_fp fp idx k = idx"
    | "maybe_promote_fp fp idx k
         = idx\<lparr>hot := bt_insert (hot idx) k (fst (bt_search (cold idx) k stats0))\<rparr>"
      "fst (bt_search (hot idx) k stats0) = NULL" "fst (bt_search (cold idx) k stats0) \<noteq> NULL"
    using maybe_promote_fp_cases [of fp idx k] by blast
  then show ?thesis
  proof cases
    case 1
    with assms show ?thesis by simp
  next
    case 2
    define v where "v = fst (bt_search (cold idx) k stats0)"
    have hok: "hot_ok idx" and cok: "cold_ok idx" using assms by (simp_all add: hc_inv_def)
    have fresh: "k \<notin> keys_of (hot idx)" using hok 2(2) by (rule hot_ok_fresh)
    have wfh: "wf_tree (hot idx)" and sth: "strict_tree (hot idx)"
      using hok by (simp_all add: hot_ok_def)
    note fr = bt_insert_fresh [OF wfh sth fresh, of v]
    have "k \<in> keys_of (cold idx)"
      using cok 2(3) by (intro bt_search_key) (simp_all add: cold_ok_def)
    then have "0 \<le> k \<and> k \<le> max_key idx" using cok by (auto simp: cold_ok_def)
    moreover have "keys_of (bt_insert (hot idx) k v) = insert k (keys_of (hot idx))"
      using wfh sth fresh by (intro bt_insert_keys strict_imp_sorted)
    moreover have "wf_tree (bt_insert (hot idx) k v)"
      using wfh sth by (intro bt_insert_wf strict_imp_sorted)
    moreover have "NULL \<notin> snd ` set (inorder (bt_root (bt_insert (hot idx) k v)))"
      using fr(4) hok 2(3) by (auto simp: hot_ok_def v_def)
    ultimately show ?thesis
      using assms fr(1) unfolding 2(1) v_def [symmetric]
      by (simp add: hc_inv_def hot_ok_def cold_ok_def)
  qed
qed

lemma maybe_promote_inv: "hc_inv idx \<Longrightarrow> hc_inv (maybe_promote idx k)"
  by (simp add: maybe_promote_def maybe_promote_fp_inv)

lemma hc_inv_upd:
  "hc_inv idx \<Longrightarrow> length hs = length (hit_score idx) \<Longrightarrow> hc_inv (idx\<lparr>stats := st, hit_score := hs\<rparr>)"
  by (simp add: hc_inv_def hot_ok_def cold_ok_def)

lemma hc_search_fp_inv:
  assumes "hc_inv idx"
  shows "hc_inv (snd (hc_search_fp fp idx k))"
proof -
  have "hc_inv (maybe_promote_fp fp idx k)" using assms by (rule maybe_promote_fp_inv)
  then have "hot_ok (maybe_promote_fp fp idx k)"
    "keys_of (hot (maybe_promote_fp fp idx k)) \<subseteq> {0 .. max_key idx}"
    by (simp_all add: hc_inv_def maybe_promote_fp_fields)
  with hc_search_fp_hot [of fp idx k] assms show ?thesis
    by (auto simp: hc_inv_def hot_ok_def cold_ok_def hc_search_fp_fields)
qed

lemma hc_search_inv: "hc_inv idx \<Longrightarrow> hc_inv (snd (hc_search idx k))"
  by (simp add: hc_search_def hc_search_fp_inv)

lemma hc_range_search_inv: "hc_inv idx \<Longrightarrow> hc_inv (snd (hc_range_search idx lo hi))"
  by (simp add: hc_inv_def hot_ok_def cold_ok_def hc_range_search_fields)

lemma hc_insert_inv:
  assumes "hc_inv idx"
  shows "hc_inv (fst (hc_insert idx k v))"
proof (cases "k < 0 \<or> k > max_key idx")
  case True
  with assms show ?thesis by (simp add: hc_insert_def)
next
  case False
  have cok: "wf_tree (cold idx)" "sorted_tree (cold idx)"
    using assms by (simp_all add: hc_inv_def cold_ok_def)
  have "keys_of (bt_insert (cold idx) k v) \<subseteq> insert k (keys_of (cold idx))"
    using cok by (rule bt_insert_keys_sub)
  moreover have "wf_tree (bt_insert (cold idx) k v)" using cok by (rule bt_insert_wf)
  moreover have "sorted_tree (bt_insert (cold idx) k v)" using cok by (rule bt_insert_sorted)
  ultimately show ?thesis using assms False
    by (auto simp: hc_inv_def hot_ok_def cold_ok_def hc_insert_def)
qed

lemma hc_create_inv: "2 \<le> t \<Longrightarrow> hc_inv (hc_create mk t ps)"
  by (simp add: hc_inv_def hot_ok_def cold_ok_def hc_create_def bt_create_wf
      strict_tree_def sorted_tree_def keys_of_def bt_create_inorder)

lemma hc_step_inv: "hc_inv idx \<Longrightarrow> hc_inv (hc_step idx op)"
  by (cases op) (simp_all add: hc_insert_inv hc_search_inv hc_range_search_inv)

lemma hc_run_inv: "hc_inv idx \<Longrightarrow> hc_inv (hc_run idx ops)"
  unfolding hc_run_def by (induction ops arbitrary: idx) (simp_all add: hc_step_inv)

lemma hc_step_fields:
  "max_key (hc_step idx op) = max_key idx" "params (hc_step idx op) = params idx"
  by (cases op; simp add: hc_insert_fields hc_search_fields hc_range_search_fields)+

lemma hc_run_fields:
  "max_key (hc_run idx ops) = max_key idx" "params (hc_run idx ops) = params idx"
  unfolding hc_run_def by (induction ops arbitrary: idx; simp add: hc_step_fields)+

text \<open>The same for the calls with any rounding of the \<^verbatim>\<open>double\<close> operations.\<close>

lemma hc_step_fp_inv: "hc_inv idx \<Longrightarrow> hc_inv (hc_step_fp fp idx op)"
  by (cases op) (simp_all add: hc_insert_inv hc_search_fp_inv hc_range_search_inv)

lemma hc_run_fp_inv: "hc_inv idx \<Longrightarrow> hc_inv (hc_run_fp fp idx ops)"
  unfolding hc_run_fp_def by (induction ops arbitrary: idx) (simp_all add: hc_step_fp_inv)

lemma hc_step_fp_fields:
  "max_key (hc_step_fp fp idx op) = max_key idx" "params (hc_step_fp fp idx op) = params idx"
  by (cases op; simp add: hc_insert_fields hc_search_fp_fields hc_range_search_fields)+

lemma hc_run_fp_fields:
  "max_key (hc_run_fp fp idx ops) = max_key idx" "params (hc_run_fp fp idx ops) = params idx"
  unfolding hc_run_fp_def by (induction ops arbitrary: idx; simp add: hc_step_fp_fields)+

lemma hc_step_exact: "hc_step_fp exact_fp idx op = hc_step idx op"
  by (cases op) (simp_all add: hc_search_def)

lemma hc_run_exact: "hc_run_fp exact_fp idx ops = hc_run idx ops"
  unfolding hc_run_fp_def hc_run_def by (induction ops arbitrary: idx) (simp_all add: hc_step_exact)

lemma size_t_of_small: "0 \<le> i \<Longrightarrow> i < 2 ^ 64 \<Longrightarrow> size_t_of i = nat i"
  by (simp add: size_t_of_def)

section \<open>The capacity of the hot tree\<close>

lemma maybe_promote_cap:
  assumes "hc_inv idx" "hot_cap idx"
  shows "hot_cap (maybe_promote idx k)"
proof -
  consider "maybe_promote idx k = idx"
    | "maybe_promote idx k = idx\<lparr>hot := bt_insert (hot idx) k (fst (bt_search (cold idx) k stats0))\<rparr>"
      "real (bt_count_keys (hot idx))
        < max_hot_fraction (params idx) * real (size_t_of (max_key idx + 1))"
    using maybe_promote_cases [of idx k] by blast
  then show ?thesis
  proof cases
    case 1
    with assms show ?thesis by simp
  next
    case 2
    have "wf_tree (hot idx)" "sorted_tree (hot idx)"
      using assms(1) by (simp_all add: hc_inv_def hot_ok_def strict_imp_sorted)
    then have "bt_count_keys (bt_insert (hot idx) k (fst (bt_search (cold idx) k stats0)))
        \<le> Suc (bt_count_keys (hot idx))"
      by (rule bt_insert_count_le)
    then have "real (bt_count_keys (bt_insert (hot idx) k (fst (bt_search (cold idx) k stats0)))) - 1
        \<le> real (bt_count_keys (hot idx))"
      by linarith
    with 2(2) show ?thesis unfolding 2(1) by (simp add: hot_cap_def)
  qed
qed

lemma hot_cap_cong:
  "hot idx' = hot idx \<Longrightarrow> max_key idx' = max_key idx \<Longrightarrow> params idx' = params idx \<Longrightarrow>
   hot_cap idx' = hot_cap idx"
  by (simp add: hot_cap_def)

lemma hc_step_cap:
  assumes "hc_inv idx" "hot_cap idx"
  shows "hot_cap (hc_step idx op)"
proof (cases op)
  case (Insert k v)
  show ?thesis unfolding Insert hc_step.simps
    by (rule hot_cap_cong [THEN iffD2, OF _ _ _ assms(2)]) (simp_all add: hc_insert_fields)
next
  case (Search k)
  from hc_search_hot [of idx k] show ?thesis
  proof
    assume "hot (snd (hc_search idx k)) = hot idx"
    then show ?thesis unfolding Search hc_step.simps
      by (intro hot_cap_cong [THEN iffD2, OF _ _ _ assms(2)]) (simp_all add: hc_search_fields)
  next
    assume "hot (snd (hc_search idx k)) = hot (maybe_promote idx k)"
    then have "hot_cap (snd (hc_search idx k)) = hot_cap (maybe_promote idx k)"
      by (intro hot_cap_cong) (simp_all add: hc_search_fields maybe_promote_fields)
    then show ?thesis using maybe_promote_cap [OF assms] Search by simp
  qed
next
  case (Range_search lo hi)
  show ?thesis unfolding Range_search hc_step.simps
    by (rule hot_cap_cong [THEN iffD2, OF _ _ _ assms(2)]) (simp_all add: hc_range_search_fields)
qed

lemma hc_run_cap: "hc_inv idx \<Longrightarrow> hot_cap idx \<Longrightarrow> hot_cap (hc_run idx ops)"
  unfolding hc_run_def
  by (induction ops arbitrary: idx) (simp_all add: hc_step_cap hc_step_inv)

lemma hc_create_cap: "hot_cap (hc_create mk t ps)"
  by (simp add: hot_cap_def hc_create_def bt_count_keys_def bt_create_def bt_new_node_def)

text \<open>
  Claim C3, amended. The claim bounds the number of hot keys by the floor of
  \<open>max_hot_fraction * (max_key + 1)\<close>. \<^verbatim>\<open>maybe_promote\<close> inserts whenever the count is
  below that product, so the count can reach the next integer above it: after any
  sequence of \<^verbatim>\<open>hc_insert\<close>, \<^verbatim>\<open>hc_search\<close> and \<^verbatim>\<open>hc_range_search\<close> calls on a new
  index, the number of keys in the hot tree is at most the ceiling of
  \<open>max_hot_fraction * (max_key + 1)\<close>, for \<open>max_hot_fraction \<ge> 0\<close> and
  \<open>0 \<le> max_key < 2^63\<close>. The counterexample has \<open>max_key = 2\<close> and
  \<open>max_hot_fraction = 1/2\<close>, where the product is 1.5 and two keys are promoted; all
  its numbers are exact in \<^verbatim>\<open>double\<close> arithmetic.
\<close>

theorem hot_capacity_ceiling:
  assumes "2 \<le> t" "0 \<le> max_hot_fraction ps" "0 \<le> mk" "mk < 2 ^ 63"
  shows "int (bt_count_keys (hot (hc_run (hc_create mk t ps) ops)))
           \<le> \<lceil>max_hot_fraction ps * real_of_int (mk + 1)\<rceil>"
proof -
  define idx where "idx = hc_run (hc_create mk t ps) ops"
  have "hot_cap idx" unfolding idx_def
    using assms(1) by (intro hc_run_cap hc_create_inv hc_create_cap)
  moreover have "max_key idx = mk" "params idx = ps"
    by (simp_all add: idx_def hc_run_fields hc_create_def)
  moreover have "size_t_of (mk + 1) = nat (mk + 1)"
    using assms(3,4) by (intro size_t_of_small) simp_all
  ultimately have cap: "bt_count_keys (hot idx) = 0 \<or>
      real (bt_count_keys (hot idx)) - 1 < max_hot_fraction ps * real_of_int (mk + 1)"
    using assms(3) by (simp add: hot_cap_def)
  have nonneg: "0 \<le> max_hot_fraction ps * real_of_int (mk + 1)"
    using assms(2,3) by simp
  from cap have "int (bt_count_keys (hot idx)) \<le> \<lceil>max_hot_fraction ps * real_of_int (mk + 1)\<rceil>"
  proof
    assume "bt_count_keys (hot idx) = 0"
    with nonneg show ?thesis by (simp add: le_ceiling_iff)
  next
    assume "real (bt_count_keys (hot idx)) - 1 < max_hot_fraction ps * real_of_int (mk + 1)"
    then have "real_of_int (int (bt_count_keys (hot idx)) - 1)
        < max_hot_fraction ps * real_of_int (mk + 1)" by simp
    then have "int (bt_count_keys (hot idx)) - 1 < \<lceil>max_hot_fraction ps * real_of_int (mk + 1)\<rceil>"
      by (simp only: less_ceiling_iff)
    then show ?thesis by simp
  qed
  then show ?thesis by (simp add: idx_def)
qed

theorem hot_capacity_ceiling_witness:
  "int (bt_count_keys (hot (hc_run
      (hc_create 2 2 \<lparr>decay_alpha = 1 / 2, hot_threshold = 1, max_hot_fraction = 1 / 2, inclusive = 1\<rparr>)
      [Insert 0 (Ptr 10), Insert 1 (Ptr 11), Insert 2 (Ptr 12), Search 0, Search 1, Search 2])))
     \<le> 2"
  using hot_capacity_ceiling [of 2
      "\<lparr>decay_alpha = 1 / 2, hot_threshold = 1, max_hot_fraction = 1 / 2, inclusive = 1\<rparr>" 2
      "[Insert 0 (Ptr 10), Insert 1 (Ptr 11), Insert 2 (Ptr 12), Search 0, Search 1, Search 2]"]
  by simp

theorem hot_capacity_floor_counterexample:
  "\<not> int (bt_count_keys (hot (hc_run
      (hc_create 2 2 \<lparr>decay_alpha = 1 / 2, hot_threshold = 1, max_hot_fraction = 1 / 2, inclusive = 1\<rparr>)
      [Insert 0 (Ptr 10), Insert 1 (Ptr 11), Insert 2 (Ptr 12), Search 1, Search 2])))
     \<le> \<lfloor>(1 / 2 :: real) * real_of_int (2 + 1)\<rfloor>"
proof -
  have "bt_count_keys (hot (hc_run
      (hc_create 2 2 \<lparr>decay_alpha = 1 / 2, hot_threshold = 1, max_hot_fraction = 1 / 2, inclusive = 1\<rparr>)
      [Insert 0 (Ptr 10), Insert 1 (Ptr 11), Insert 2 (Ptr 12), Search 1, Search 2])) = 2"
    by code_simp
  moreover have "\<lfloor>(1 / 2 :: real) * real_of_int (2 + 1)\<rfloor> = 1" by simp
  ultimately show ?thesis by simp
qed

section \<open>Insertion into the index\<close>

text \<open>
  Claim C9. For a key below 0 or above \<open>max_key\<close>, \<^verbatim>\<open>hc_insert\<close> prints its diagnostic
  and returns the index as it was: both trees, the score array and all counters. For a
  key in \<open>[0, max_key]\<close> it prints nothing and changes the cold tree only, by
  \<^verbatim>\<open>bt_insert\<close>; the hot tree stays as it was.
\<close>

theorem hc_insert_range_check:
  "(k < 0 \<or> k > max_key idx \<longrightarrow>
      hc_insert idx k v = (idx, [Key_out_of_range k (max_key idx)]))
   \<and> (0 \<le> k \<and> k \<le> max_key idx \<longrightarrow>
      hc_insert idx k v = (idx\<lparr>cold := bt_insert (cold idx) k v\<rparr>, [])
      \<and> hot (fst (hc_insert idx k v)) = hot idx)"
  by (simp add: hc_insert_def)

theorem hc_insert_range_check_witness:
  "hc_insert (hc_create 9 2 \<lparr>decay_alpha = 9 / 10, hot_threshold = 8, max_hot_fraction = 1 / 10, inclusive = 1\<rparr>)
      10 (Ptr 1)
    = (hc_create 9 2 \<lparr>decay_alpha = 9 / 10, hot_threshold = 8, max_hot_fraction = 1 / 10, inclusive = 1\<rparr>,
       [Key_out_of_range 10 9])
   \<and> hc_insert (hc_create 9 2 \<lparr>decay_alpha = 9 / 10, hot_threshold = 8, max_hot_fraction = 1 / 10, inclusive = 1\<rparr>)
      (- 1) (Ptr 1)
    = (hc_create 9 2 \<lparr>decay_alpha = 9 / 10, hot_threshold = 8, max_hot_fraction = 1 / 10, inclusive = 1\<rparr>,
       [Key_out_of_range (- 1) 9])
   \<and> bt_root (cold (fst (hc_insert (hc_create 9 2 \<lparr>decay_alpha = 9 / 10, hot_threshold = 8, max_hot_fraction = 1 / 10, inclusive = 1\<rparr>)
      3 (Ptr 1)))) = BTreeNode [(3, Ptr 1)] [] True
   \<and> hot (fst (hc_insert (hc_create 9 2 \<lparr>decay_alpha = 9 / 10, hot_threshold = 8, max_hot_fraction = 1 / 10, inclusive = 1\<rparr>)
      3 (Ptr 1)))
    = hot (hc_create 9 2 \<lparr>decay_alpha = 9 / 10, hot_threshold = 8, max_hot_fraction = 1 / 10, inclusive = 1\<rparr>)"
  using hc_insert_range_check [of 10 "hc_create 9 2 \<lparr>decay_alpha = 9 / 10, hot_threshold = 8, max_hot_fraction = 1 / 10, inclusive = 1\<rparr>" "Ptr 1"]
    hc_insert_range_check [of "- 1" "hc_create 9 2 \<lparr>decay_alpha = 9 / 10, hot_threshold = 8, max_hot_fraction = 1 / 10, inclusive = 1\<rparr>" "Ptr 1"]
    hc_insert_range_check [of 3 "hc_create 9 2 \<lparr>decay_alpha = 9 / 10, hot_threshold = 8, max_hot_fraction = 1 / 10, inclusive = 1\<rparr>" "Ptr 1"]
  by (simp add: hc_create_def bt_create_def bt_new_node_def bt_insert_def insert_scan.simps)

section \<open>Promotion\<close>

lemma hot_count_card:
  assumes "hot_ok idx"
  shows "bt_count_keys (hot idx) = card (keys_of (hot idx))"
proof -
  have "distinct (map fst (inorder (bt_root (hot idx))))"
    using assms by (simp add: hot_ok_def strict_tree_def strict_sorted_iff)
  then have "card (keys_of (hot idx)) = length (inorder (bt_root (hot idx)))"
    unfolding keys_of_def using distinct_card [of "map fst (inorder (bt_root (hot idx)))"] by simp
  then show ?thesis using assms by (simp add: bt_count_keys_inorder hot_ok_def)
qed

lemma promoted_payload:
  assumes "hc_inv idx" "k \<notin> keys_of (hot idx)" "k \<in> keys_of (hot (maybe_promote_fp fp idx k))"
  shows "fst (bt_search (hot (maybe_promote_fp fp idx k)) k s) = fst (bt_search (cold idx) k stats0)"
    and "fst (bt_search (cold idx) k stats0) \<noteq> NULL"
    and "keys_of (hot (maybe_promote_fp fp idx k)) = insert k (keys_of (hot idx))"
proof -
  define v where "v = fst (bt_search (cold idx) k stats0)"
  from assms(2,3) have "maybe_promote_fp fp idx k \<noteq> idx" by auto
  with maybe_promote_fp_cases [of fp idx k]
  have mp: "maybe_promote_fp fp idx k = idx\<lparr>hot := bt_insert (hot idx) k v\<rparr>" and nn: "v \<noteq> NULL"
    by (simp_all add: v_def)
  have wfh: "wf_tree (hot idx)" and sth: "strict_tree (hot idx)"
    using assms(1) by (simp_all add: hc_inv_def hot_ok_def)
  note fr = bt_insert_fresh [OF wfh sth assms(2), of v]
  have "wf_tree (bt_insert (hot idx) k v)"
    using wfh sth by (intro bt_insert_wf strict_imp_sorted)
  then have "fst (bt_search (bt_insert (hot idx) k v) k s)
      = lookup (inorder (bt_root (bt_insert (hot idx) k v))) k"
    using fr(1) by (rule bt_search_lookup)
  then show "fst (bt_search (hot (maybe_promote_fp fp idx k)) k s)
      = fst (bt_search (cold idx) k stats0)"
    using fr(2) [of k] by (simp add: mp v_def)
  show "fst (bt_search (cold idx) k stats0) \<noteq> NULL" using nn by (simp add: v_def)
  show "keys_of (hot (maybe_promote_fp fp idx k)) = insert k (keys_of (hot idx))"
    using wfh sth assms(2) by (simp add: mp bt_insert_keys strict_imp_sorted)
qed

text \<open>
  Claim C6: every key of the hot tree is a key of the cold tree, after any sequence of
  calls. It fails on the code. With \<open>t = 3\<close> the keys 1, 3, 5, 7 share the root leaf of the
  cold tree. A search promotes the key 7. Inserting the key 3 again makes the leaf loop of
  \<^verbatim>\<open>bt_insert_nonfull\<close> move 7 and 5 one slot up before it finds the key 3 and returns
  without incrementing \<^verbatim>\<open>nkeys\<close>: the leaf then holds 1, 3, 5, 5. The key 7 is still in
  the hot tree and no longer in the cold tree.
\<close>

theorem reinsert_drops_cold_key:
  "keys_of (hot (hc_run (hc_create 9 3
        \<lparr>decay_alpha = 9 / 10, hot_threshold = 1, max_hot_fraction = 1 / 2, inclusive = 1\<rparr>)
        [Insert 1 (Ptr 11), Insert 3 (Ptr 13), Insert 5 (Ptr 15), Insert 7 (Ptr 17), Search 7,
         Insert 3 (Ptr 33)])) = {7}
   \<and> keys_of (cold (hc_run (hc_create 9 3
        \<lparr>decay_alpha = 9 / 10, hot_threshold = 1, max_hot_fraction = 1 / 2, inclusive = 1\<rparr>)
        [Insert 1 (Ptr 11), Insert 3 (Ptr 13), Insert 5 (Ptr 15), Insert 7 (Ptr 17), Search 7,
         Insert 3 (Ptr 33)])) = {1, 3, 5}
   \<and> bt_root (cold (hc_run (hc_create 9 3
        \<lparr>decay_alpha = 9 / 10, hot_threshold = 1, max_hot_fraction = 1 / 2, inclusive = 1\<rparr>)
        [Insert 1 (Ptr 11), Insert 3 (Ptr 13), Insert 5 (Ptr 15), Insert 7 (Ptr 17), Search 7,
         Insert 3 (Ptr 33)]))
      = BTreeNode [(1, Ptr 11), (3, Ptr 33), (5, Ptr 15), (5, Ptr 15)] [] True"
  by code_simp

lemma maybe_promote_fp_does:
  assumes "inclusive (params idx) \<noteq> 0"
    "fp_of_size fp (bt_count_keys (hot idx))
       < fp_mul fp (max_hot_fraction (params idx)) (fp_of_size fp (size_t_of (max_key idx + 1)))"
    "fst (bt_search (hot idx) k stats0) = NULL" "fst (bt_search (cold idx) k stats0) \<noteq> NULL"
  shows "maybe_promote_fp fp idx k
    = idx\<lparr>hot := bt_insert (hot idx) k (fst (bt_search (cold idx) k stats0))\<rparr>"
  using assms by (simp add: maybe_promote_fp_def Let_def case_prod_beta stats0_def)

lemma maybe_promote_fp_full:
  "\<not> fp_of_size fp (bt_count_keys (hot idx))
       < fp_mul fp (max_hot_fraction (params idx)) (fp_of_size fp (size_t_of (max_key idx + 1)))
   \<Longrightarrow> maybe_promote_fp fp idx k = idx"
  by (simp add: maybe_promote_fp_def Let_def case_prod_beta)

lemma hc_search_fp_cold_hit:
  assumes "fst (bt_search (hot idx) k stats0) = NULL" "fst (bt_search (cold idx) k stats0) \<noteq> NULL"
    "0 \<le> k" "k \<le> max_key idx"
  shows "\<exists>st. hc_search_fp fp idx k =
     (fst (bt_search (cold idx) k stats0),
      if hot_threshold (params idx) \<le> fp_muladd fp (decay_alpha (params idx)) (hit_score idx ! nat k) 1
      then maybe_promote_fp fp (idx\<lparr>stats := st,
             hit_score := (hit_score idx)
               [nat k := fp_muladd fp (decay_alpha (params idx)) (hit_score idx ! nat k) 1]\<rparr>) k
      else idx\<lparr>stats := st,
             hit_score := (hit_score idx)
               [nat k := fp_muladd fp (decay_alpha (params idx)) (hit_score idx ! nat k) 1]\<rparr>)"
proof -
  let ?st = "stats idx\<lparr>queries := queries (stats idx) + 1,
      hot_node_visits := hot_node_visits (stats idx)
        + node_visits (snd (bt_search (hot idx) k \<lparr>node_visits = 0\<rparr>)),
      cold_node_visits := cold_node_visits (stats idx)
        + node_visits (snd (bt_search (cold idx) k \<lparr>node_visits = 0\<rparr>)),
      cold_hits := cold_hits (stats idx) + 1\<rparr>"
  show ?thesis
    using assms
    by (intro exI [of _ ?st]) (simp add: hc_search_fp_def Let_def case_prod_beta stats0_def)
qed

lemma hot_search_absent:
  assumes "hot_ok idx" "k \<notin> keys_of (hot idx)"
  shows "fst (bt_search (hot idx) k s) = NULL"
proof -
  have "fst (bt_search (hot idx) k s) = lookup (inorder (bt_root (hot idx))) k"
    using assms(1) by (intro bt_search_lookup) (simp_all add: hot_ok_def)
  then show ?thesis using assms(2) by (simp add: lookup_notin keys_of_def)
qed

text \<open>
  Claim C8, amended. The claim is for every key of \<open>[0, max_key]\<close> present in cold but
  not in hot. It does not hold for a key that the cold tree binds to the null payload:
  \<^verbatim>\<open>hc_search\<close> takes the null payload that \<^verbatim>\<open>bt_search\<close> returns for a miss, leaves the
  score as it was and does not call \<^verbatim>\<open>maybe_promote\<close>. In the counterexample the only
  call on a new index with \<open>max_key = 9\<close> was \<^verbatim>\<open>hc_insert(idx, 0, NULL)\<close>: the key 0
  is in the cold tree and not in the hot tree, its score is 0, the claim asks for the
  new score \<open>0.5 * 0 + 1 = 1\<close>, which meets the threshold 1, and for a promotion into the
  empty hot tree, which may hold 5 keys; the call returns null and leaves the score at 0
  and the hot tree empty.

  What holds is the claim for the keys for which the search of the cold tree returns a
  payload other than null. In inclusive mode, for such a key \<open>k\<close> in \<open>[0, max_key]\<close>
  that the hot tree does not hold, \<^verbatim>\<open>hc_search(idx, k)\<close> returns that payload, which the
  cold tree binds to \<open>k\<close>, and sets \<open>score[k]\<close> to the value of
  \<^verbatim>\<open>decay_alpha * score[k] + 1.0\<close> in \<^verbatim>\<open>double\<close> arithmetic. When that value is at least
  \<open>hot_threshold\<close> and the number of keys of the hot tree, as a \<^verbatim>\<open>double\<close>, is below
  the \<^verbatim>\<open>double\<close> product \<^verbatim>\<open>max_hot_fraction * (double)(max_key + 1)\<close>, the key is added
  to the hot tree with the cold payload; otherwise the hot tree stays as it was. This is
  for every index reached from \<^verbatim>\<open>hc_create\<close> (with \<open>t \<ge> 2\<close> and
  \<open>0 \<le> max_key < 2^63\<close>) by calls of the library, whatever the rounding \<open>fp\<close> of the
  \<^verbatim>\<open>double\<close> operations.
\<close>

theorem cold_hit_promotion:
  assumes "2 \<le> t" "0 \<le> mk" "mk < 2 ^ 63" and "idx = hc_run_fp fp (hc_create mk t ps) ops"
    and "inclusive ps \<noteq> 0" and "0 \<le> k" "k \<le> mk"
    and "k \<notin> keys_of (hot idx)" and "fst (bt_search (cold idx) k stats0) \<noteq> NULL"
  shows "fst (hc_search_fp fp idx k) = fst (bt_search (cold idx) k stats0)
    \<and> (k, fst (bt_search (cold idx) k stats0)) \<in> set (inorder (bt_root (cold idx)))
    \<and> hit_score (snd (hc_search_fp fp idx k)) ! nat k
        = fp_muladd fp (decay_alpha ps) (hit_score idx ! nat k) 1
    \<and> (hot_threshold ps \<le> fp_muladd fp (decay_alpha ps) (hit_score idx ! nat k) 1
          \<and> fp_of_size fp (card (keys_of (hot idx)))
              < fp_mul fp (max_hot_fraction ps) (fp_of_size fp (nat (mk + 1)))
        \<longrightarrow> keys_of (hot (snd (hc_search_fp fp idx k))) = insert k (keys_of (hot idx))
          \<and> fst (bt_search (hot (snd (hc_search_fp fp idx k))) k stats0)
              = fst (bt_search (cold idx) k stats0))
    \<and> (\<not> (hot_threshold ps \<le> fp_muladd fp (decay_alpha ps) (hit_score idx ! nat k) 1
          \<and> fp_of_size fp (card (keys_of (hot idx)))
              < fp_mul fp (max_hot_fraction ps) (fp_of_size fp (nat (mk + 1))))
        \<longrightarrow> hot (snd (hc_search_fp fp idx k)) = hot idx)"
proof -
  have inv: "hc_inv idx" unfolding assms(4) using assms(1) by (intro hc_run_fp_inv hc_create_inv)
  have mkp: "max_key idx = mk" "params idx = ps"
    by (simp_all add: assms(4) hc_run_fp_fields hc_create_def)
  have sz: "size_t_of (mk + 1) = nat (mk + 1)"
    using assms(2,3) by (intro size_t_of_small) simp_all
  have len: "nat k < length (hit_score idx)"
    using inv assms(6,7) by (simp add: hc_inv_def mkp sz)
  have hok: "hot_ok idx" using inv by (simp add: hc_inv_def)
  have cnt: "bt_count_keys (hot idx) = card (keys_of (hot idx))" using hok by (rule hot_count_card)
  have hn: "fst (bt_search (hot idx) k stats0) = NULL"
    using hok assms(8) by (rule hot_search_absent)
  have mem: "(k, fst (bt_search (cold idx) k stats0)) \<in> set (inorder (bt_root (cold idx)))"
    using inv assms(9) by (intro bt_search_mem) (simp_all add: hc_inv_def cold_ok_def)
  define new where "new = fp_muladd fp (decay_alpha ps) (hit_score idx ! nat k) 1"
  define cap where "cap \<longleftrightarrow> fp_of_size fp (card (keys_of (hot idx)))
      < fp_mul fp (max_hot_fraction ps) (fp_of_size fp (nat (mk + 1)))"
  from hc_search_fp_cold_hit [OF hn assms(9) assms(6), of fp] assms(7) obtain st where
    hs: "hc_search_fp fp idx k = (fst (bt_search (cold idx) k stats0),
      if hot_threshold ps \<le> new
      then maybe_promote_fp fp (idx\<lparr>stats := st, hit_score := (hit_score idx)[nat k := new]\<rparr>) k
      else idx\<lparr>stats := st, hit_score := (hit_score idx)[nat k := new]\<rparr>)"
    unfolding new_def mkp by auto
  define idx5 where "idx5 = idx\<lparr>stats := st, hit_score := (hit_score idx)[nat k := new]\<rparr>"
  have f5: "hot idx5 = hot idx" "cold idx5 = cold idx" "params idx5 = ps" "max_key idx5 = mk"
    "hit_score idx5 ! nat k = new"
    using len by (simp_all add: idx5_def mkp)
  have inv5: "hc_inv idx5" unfolding idx5_def using inv by (intro hc_inv_upd) simp_all
  have cap5: "fp_of_size fp (bt_count_keys (hot idx5))
        < fp_mul fp (max_hot_fraction (params idx5)) (fp_of_size fp (size_t_of (max_key idx5 + 1)))
      \<longleftrightarrow> cap"
    by (simp add: f5 sz cnt cap_def)
  have score: "hit_score (snd (hc_search_fp fp idx k)) ! nat k = new"
    using f5(5) by (simp add: hs idx5_def [symmetric] maybe_promote_fp_fields)
  have ret: "fst (hc_search_fp fp idx k) = fst (bt_search (cold idx) k stats0)" by (simp add: hs)
  have yes: "keys_of (hot (snd (hc_search_fp fp idx k))) = insert k (keys_of (hot idx))
      \<and> fst (bt_search (hot (snd (hc_search_fp fp idx k))) k stats0)
          = fst (bt_search (cold idx) k stats0)"
    if "hot_threshold ps \<le> new" cap
  proof -
    have "maybe_promote_fp fp idx5 k
        = idx5\<lparr>hot := bt_insert (hot idx5) k (fst (bt_search (cold idx5) k stats0))\<rparr>"
      using assms(5,9) hn that(2) cap5
      by (intro maybe_promote_fp_does) (simp_all add: f5)
    then have k_in: "k \<in> keys_of (hot (maybe_promote_fp fp idx5 k))"
      using hok assms(8) by (simp add: f5 bt_insert_keys hot_ok_def strict_imp_sorted)
    have "k \<notin> keys_of (hot idx5)" using assms(8) by (simp add: f5)
    from promoted_payload(1) [OF inv5 this k_in, of stats0] promoted_payload(3) [OF inv5 this k_in]
    have "fst (bt_search (hot (maybe_promote_fp fp idx5 k)) k stats0)
        = fst (bt_search (cold idx) k stats0)"
      "keys_of (hot (maybe_promote_fp fp idx5 k)) = insert k (keys_of (hot idx))"
      by (simp_all add: f5)
    with that(1) show ?thesis by (simp add: hs idx5_def [symmetric])
  qed
  have no: "hot (snd (hc_search_fp fp idx k)) = hot idx" if "\<not> (hot_threshold ps \<le> new \<and> cap)"
  proof (cases "hot_threshold ps \<le> new")
    case True
    with that cap5 have "maybe_promote_fp fp idx5 k = idx5"
      by (intro maybe_promote_fp_full) simp
    with True show ?thesis by (simp add: hs idx5_def [symmetric] f5)
  next
    case False
    then show ?thesis by (simp add: hs idx5_def [symmetric] f5)
  qed
  from ret mem score yes no show ?thesis
    unfolding new_def [symmetric] cap_def [symmetric] by blast
qed

theorem cold_hit_promotion_witness:
  "hit_score (snd (hc_search_fp exact_fp (hc_run_fp exact_fp (hc_create 9 2
        \<lparr>decay_alpha = 1 / 2, hot_threshold = 7 / 4, max_hot_fraction = 1 / 2, inclusive = 1\<rparr>)
        [Insert 3 (Ptr 13), Insert 5 (Ptr 15), Search 3, Search 3]) 3)) ! nat 3 = 7 / 4
   \<and> keys_of (hot (snd (hc_search_fp exact_fp (hc_run_fp exact_fp (hc_create 9 2
        \<lparr>decay_alpha = 1 / 2, hot_threshold = 7 / 4, max_hot_fraction = 1 / 2, inclusive = 1\<rparr>)
        [Insert 3 (Ptr 13), Insert 5 (Ptr 15), Search 3, Search 3]) 3))) = {3}
   \<and> fst (bt_search (hot (snd (hc_search_fp exact_fp (hc_run_fp exact_fp (hc_create 9 2
        \<lparr>decay_alpha = 1 / 2, hot_threshold = 7 / 4, max_hot_fraction = 1 / 2, inclusive = 1\<rparr>)
        [Insert 3 (Ptr 13), Insert 5 (Ptr 15), Search 3, Search 3]) 3))) 3 stats0) = Ptr 13"
proof -
  define ps where "ps = \<lparr>decay_alpha = 1 / 2, hot_threshold = 7 / 4, max_hot_fraction = 1 / 2,
    inclusive = 1\<rparr>"
  define idx where "idx = hc_run_fp exact_fp (hc_create 9 2 ps)
    [Insert 3 (Ptr 13), Insert 5 (Ptr 15), Search 3, Search 3]"
  have e1: "keys_of (hot idx) = {}" unfolding idx_def ps_def by code_simp
  have e2: "fst (bt_search (cold idx) 3 stats0) = Ptr 13" unfolding idx_def ps_def by code_simp
  have e3: "hit_score idx ! nat 3 = 3 / 2" unfolding idx_def ps_def by code_simp
  have ps: "inclusive ps \<noteq> 0" "decay_alpha ps = 1 / 2" "hot_threshold ps = 7 / 4"
    "max_hot_fraction ps = 1 / 2" by (simp_all add: ps_def)
  from cold_hit_promotion [of 2 9 idx exact_fp ps _ 3, OF _ _ _ idx_def ps(1)] e1 e2 e3 ps(2-)
  show ?thesis unfolding idx_def [symmetric] ps_def [symmetric] by simp
qed

theorem null_payload_cold_key_counterexample:
  "inclusive (params (hc_run_fp exact_fp (hc_create 9 2
        \<lparr>decay_alpha = 1 / 2, hot_threshold = 1, max_hot_fraction = 1 / 2, inclusive = 1\<rparr>)
        [Insert 0 NULL])) \<noteq> 0
   \<and> max_key (hc_run_fp exact_fp (hc_create 9 2
        \<lparr>decay_alpha = 1 / 2, hot_threshold = 1, max_hot_fraction = 1 / 2, inclusive = 1\<rparr>)
        [Insert 0 NULL]) = 9
   \<and> 0 \<in> keys_of (cold (hc_run_fp exact_fp (hc_create 9 2
        \<lparr>decay_alpha = 1 / 2, hot_threshold = 1, max_hot_fraction = 1 / 2, inclusive = 1\<rparr>)
        [Insert 0 NULL]))
   \<and> 0 \<notin> keys_of (hot (hc_run_fp exact_fp (hc_create 9 2
        \<lparr>decay_alpha = 1 / 2, hot_threshold = 1, max_hot_fraction = 1 / 2, inclusive = 1\<rparr>)
        [Insert 0 NULL]))
   \<and> fp_muladd exact_fp (decay_alpha (params (hc_run_fp exact_fp (hc_create 9 2
        \<lparr>decay_alpha = 1 / 2, hot_threshold = 1, max_hot_fraction = 1 / 2, inclusive = 1\<rparr>)
        [Insert 0 NULL]))) (hit_score (hc_run_fp exact_fp (hc_create 9 2
        \<lparr>decay_alpha = 1 / 2, hot_threshold = 1, max_hot_fraction = 1 / 2, inclusive = 1\<rparr>)
        [Insert 0 NULL]) ! nat 0) 1 = 1
   \<and> hot_threshold (params (hc_run_fp exact_fp (hc_create 9 2
        \<lparr>decay_alpha = 1 / 2, hot_threshold = 1, max_hot_fraction = 1 / 2, inclusive = 1\<rparr>)
        [Insert 0 NULL])) = 1
   \<and> fp_of_size exact_fp (card (keys_of (hot (hc_run_fp exact_fp (hc_create 9 2
        \<lparr>decay_alpha = 1 / 2, hot_threshold = 1, max_hot_fraction = 1 / 2, inclusive = 1\<rparr>)
        [Insert 0 NULL])))) = 0
   \<and> fp_mul exact_fp (max_hot_fraction (params (hc_run_fp exact_fp (hc_create 9 2
        \<lparr>decay_alpha = 1 / 2, hot_threshold = 1, max_hot_fraction = 1 / 2, inclusive = 1\<rparr>)
        [Insert 0 NULL]))) (fp_of_size exact_fp (nat (max_key (hc_run_fp exact_fp (hc_create 9 2
        \<lparr>decay_alpha = 1 / 2, hot_threshold = 1, max_hot_fraction = 1 / 2, inclusive = 1\<rparr>)
        [Insert 0 NULL]) + 1))) = 5
   \<and> fst (hc_search_fp exact_fp (hc_run_fp exact_fp (hc_create 9 2
        \<lparr>decay_alpha = 1 / 2, hot_threshold = 1, max_hot_fraction = 1 / 2, inclusive = 1\<rparr>)
        [Insert 0 NULL]) 0) = NULL
   \<and> hit_score (snd (hc_search_fp exact_fp (hc_run_fp exact_fp (hc_create 9 2
        \<lparr>decay_alpha = 1 / 2, hot_threshold = 1, max_hot_fraction = 1 / 2, inclusive = 1\<rparr>)
        [Insert 0 NULL]) 0)) ! nat 0 = 0
   \<and> 0 \<notin> keys_of (hot (snd (hc_search_fp exact_fp (hc_run_fp exact_fp (hc_create 9 2
        \<lparr>decay_alpha = 1 / 2, hot_threshold = 1, max_hot_fraction = 1 / 2, inclusive = 1\<rparr>)
        [Insert 0 NULL]) 0)))"
  by code_simp

section \<open>Keys bound to the null payload\<close>









section \<open>Node visits\<close>

text \<open>
  The counter of \<^verbatim>\<open>bt_search_node\<close> counts the nodes of the search path. The path
  starts at the node searched, goes from each node to one of its children and, in a tree
  of the shape \<open>wf_node\<close>, ends in a node that holds the key or in a leaf.
\<close>

lemma search_path_length: "length (search_path n k) = snd (bt_search_node n k)"
  by (induction n k rule: bt_search_node.induct) (simp add: Let_def case_prod_beta)

lemma search_path_hd: "\<exists>ns. search_path n k = n # ns"
  by (cases n) (simp add: Let_def)

lemma search_path_descent: "descent (search_path n k)"
proof (induction n k rule: search_path.induct)
  case (1 es cs lf k)
  define i where "i = search_scan es k 0"
  show ?case
  proof (cases "\<not> (i < length es \<and> k = fst (es ! i)) \<and> \<not> lf \<and> i < length cs")
    case True
    obtain ns where ns: "search_path (cs ! i) k = cs ! i # ns"
      using search_path_hd by blast
    have "descent (search_path (cs ! i) k)"
      using 1 [OF i_def] True by blast
    with True ns show ?thesis by (simp add: i_def [symmetric])
  next
    case False
    then show ?thesis by (auto simp: i_def [symmetric])
  qed
qed

lemma search_path_last:
  "wf_node t n \<Longrightarrow>
   k \<in> fst ` set (entries (last (search_path n k))) \<or> leaf (last (search_path n k))"
proof (induction n k rule: search_path.induct)
  case (1 es cs lf k)
  define i where "i = search_scan es k 0"
  have ile: "i \<le> length es" using search_scan_bounds [of 0 es k] by (simp add: i_def)
  have sp: "search_path (BTreeNode es cs lf) k =
      (if i < length es \<and> k = fst (es ! i) then [BTreeNode es cs lf]
       else if lf then [BTreeNode es cs lf]
       else if i < length cs then BTreeNode es cs lf # search_path (cs ! i) k
       else [BTreeNode es cs lf])"
    by (simp add: i_def Let_def)
  show ?case
  proof (cases "i < length es \<and> k = fst (es ! i)")
    case True
    then have "k \<in> fst ` set es" by (metis nth_mem imageI)
    with True show ?thesis unfolding sp by simp
  next
    case nf: False
    show ?thesis
    proof (cases lf)
      case True
      with nf show ?thesis unfolding sp by simp
    next
      case False
      with "1.prems" ile have ic: "i < length cs" and wfc: "wf_node t (cs ! i)" by auto
      obtain ns where ns: "search_path (cs ! i) k = cs ! i # ns"
        using search_path_hd by blast
      have "k \<in> fst ` set (entries (last (search_path (cs ! i) k)))
          \<or> leaf (last (search_path (cs ! i) k))"
        using "1.IH" [OF i_def nf False ic wfc] .
      with nf False ic ns show ?thesis unfolding sp by simp
    qed
  qed
qed

lemma bt_search_path:
  "node_visits (snd (bt_search tree k s))
     = node_visits s + int (length (search_path (bt_root tree) k))"
  by (simp add: bt_search_visits search_path_length)

text \<open>
  Claim C7, amended. One \<^verbatim>\<open>hc_search\<close> call raises
  \<open>hot_node_visits + cold_node_visits\<close> by the number of nodes on the search path of its
  probe of the hot tree, plus the number of nodes on the search path of its probe of the
  cold tree when the hot probe returns null. This is so whatever the rounding \<open>fp\<close> of the
  \<^verbatim>\<open>double\<close> operations. The nodes that \<^verbatim>\<open>maybe_promote\<close> examines are not in it: the
  function counts its two probes in local \<^verbatim>\<open>BTStats\<close> that it drops. In the
  counterexample the cold tree has a root and two leaves; the counters rise by 3 (one
  node of the hot tree, two of the cold tree) while the \<^verbatim>\<open>bt_search\<close> calls of the
  \<^verbatim>\<open>hc_search\<close>, those of \<^verbatim>\<open>maybe_promote\<close> included, examine 6 nodes.
\<close>

theorem search_visit_accounting:
  "(hot_node_visits (stats (snd (hc_search_fp fp idx k)))
      + cold_node_visits (stats (snd (hc_search_fp fp idx k))))
     - (hot_node_visits (stats idx) + cold_node_visits (stats idx))
   = int (length (search_path (bt_root (hot idx)) k))
     + (if fst (bt_search (hot idx) k stats0) = NULL
        then int (length (search_path (bt_root (cold idx)) k)) else 0)"
  by (simp add: hc_search_fp_def Let_def case_prod_beta maybe_promote_fp_fields bt_search_path
      stats0_def)

theorem search_visit_accounting_witness:
  "(hot_node_visits (stats (snd (hc_search_fp exact_fp (hc_run_fp exact_fp (hc_create 9 2
        \<lparr>decay_alpha = 1 / 2, hot_threshold = 1, max_hot_fraction = 1 / 2, inclusive = 1\<rparr>)
        [Insert 1 (Ptr 11), Insert 2 (Ptr 12), Insert 3 (Ptr 13), Insert 4 (Ptr 14)]) 4)))
     + cold_node_visits (stats (snd (hc_search_fp exact_fp (hc_run_fp exact_fp (hc_create 9 2
        \<lparr>decay_alpha = 1 / 2, hot_threshold = 1, max_hot_fraction = 1 / 2, inclusive = 1\<rparr>)
        [Insert 1 (Ptr 11), Insert 2 (Ptr 12), Insert 3 (Ptr 13), Insert 4 (Ptr 14)]) 4))))
     - (hot_node_visits (stats (hc_run_fp exact_fp (hc_create 9 2
        \<lparr>decay_alpha = 1 / 2, hot_threshold = 1, max_hot_fraction = 1 / 2, inclusive = 1\<rparr>)
        [Insert 1 (Ptr 11), Insert 2 (Ptr 12), Insert 3 (Ptr 13), Insert 4 (Ptr 14)]))
       + cold_node_visits (stats (hc_run_fp exact_fp (hc_create 9 2
        \<lparr>decay_alpha = 1 / 2, hot_threshold = 1, max_hot_fraction = 1 / 2, inclusive = 1\<rparr>)
        [Insert 1 (Ptr 11), Insert 2 (Ptr 12), Insert 3 (Ptr 13), Insert 4 (Ptr 14)])))
   = 3
   \<and> search_path (bt_root (cold (hc_run_fp exact_fp (hc_create 9 2
        \<lparr>decay_alpha = 1 / 2, hot_threshold = 1, max_hot_fraction = 1 / 2, inclusive = 1\<rparr>)
        [Insert 1 (Ptr 11), Insert 2 (Ptr 12), Insert 3 (Ptr 13), Insert 4 (Ptr 14)]))) 4
     = [BTreeNode [(2, Ptr 12)]
          [BTreeNode [(1, Ptr 11)] [] True, BTreeNode [(3, Ptr 13), (4, Ptr 14)] [] True] False,
        BTreeNode [(3, Ptr 13), (4, Ptr 14)] [] True]"
proof -
  define idx where "idx = hc_run_fp exact_fp (hc_create 9 2
        \<lparr>decay_alpha = 1 / 2, hot_threshold = 1, max_hot_fraction = 1 / 2, inclusive = 1\<rparr>)
        [Insert 1 (Ptr 11), Insert 2 (Ptr 12), Insert 3 (Ptr 13), Insert 4 (Ptr 14)]"
  have e: "search_path (bt_root (hot idx)) 4 = [BTreeNode [] [] True]"
    "search_path (bt_root (cold idx)) 4
       = [BTreeNode [(2, Ptr 12)]
            [BTreeNode [(1, Ptr 11)] [] True, BTreeNode [(3, Ptr 13), (4, Ptr 14)] [] True] False,
          BTreeNode [(3, Ptr 13), (4, Ptr 14)] [] True]"
    "fst (bt_search (hot idx) 4 stats0) = NULL"
    unfolding idx_def by code_simp+
  from search_visit_accounting [of exact_fp idx 4] e show ?thesis
    unfolding idx_def [symmetric] by simp
qed

theorem promotion_visits_uncounted_counterexample:
  "(hot_node_visits (stats (snd (hc_search_fp exact_fp (hc_run_fp exact_fp (hc_create 9 2
        \<lparr>decay_alpha = 1 / 2, hot_threshold = 1, max_hot_fraction = 1 / 2, inclusive = 1\<rparr>)
        [Insert 1 (Ptr 11), Insert 2 (Ptr 12), Insert 3 (Ptr 13), Insert 4 (Ptr 14)]) 4)))
     + cold_node_visits (stats (snd (hc_search_fp exact_fp (hc_run_fp exact_fp (hc_create 9 2
        \<lparr>decay_alpha = 1 / 2, hot_threshold = 1, max_hot_fraction = 1 / 2, inclusive = 1\<rparr>)
        [Insert 1 (Ptr 11), Insert 2 (Ptr 12), Insert 3 (Ptr 13), Insert 4 (Ptr 14)]) 4))))
     - (hot_node_visits (stats (hc_run_fp exact_fp (hc_create 9 2
        \<lparr>decay_alpha = 1 / 2, hot_threshold = 1, max_hot_fraction = 1 / 2, inclusive = 1\<rparr>)
        [Insert 1 (Ptr 11), Insert 2 (Ptr 12), Insert 3 (Ptr 13), Insert 4 (Ptr 14)]))
       + cold_node_visits (stats (hc_run_fp exact_fp (hc_create 9 2
        \<lparr>decay_alpha = 1 / 2, hot_threshold = 1, max_hot_fraction = 1 / 2, inclusive = 1\<rparr>)
        [Insert 1 (Ptr 11), Insert 2 (Ptr 12), Insert 3 (Ptr 13), Insert 4 (Ptr 14)])))
   = 3
   \<and> length (hc_search_examined exact_fp (hc_run_fp exact_fp (hc_create 9 2
        \<lparr>decay_alpha = 1 / 2, hot_threshold = 1, max_hot_fraction = 1 / 2, inclusive = 1\<rparr>)
        [Insert 1 (Ptr 11), Insert 2 (Ptr 12), Insert 3 (Ptr 13), Insert 4 (Ptr 14)]) 4) = 6
   \<and> keys_of (hot (snd (hc_search_fp exact_fp (hc_run_fp exact_fp (hc_create 9 2
        \<lparr>decay_alpha = 1 / 2, hot_threshold = 1, max_hot_fraction = 1 / 2, inclusive = 1\<rparr>)
        [Insert 1 (Ptr 11), Insert 2 (Ptr 12), Insert 3 (Ptr 13), Insert 4 (Ptr 14)]) 4))) = {4}"
  by code_simp

section \<open>Repeated keys and range scans on a tree with an internal node\<close>

text \<open>
  Claim C1: \<^verbatim>\<open>bt_insert\<close> of a key that the tree holds replaces its payload and leaves
  the key set and \<^verbatim>\<open>bt_count_keys\<close> as they were. It fails on the code, in two ways. With \<open>t = 2\<close>, the keys 1, 2, 3, 4 leave the
  key 2 in the root, an internal node. \<^verbatim>\<open>bt_insert_nonfull\<close> compares for equality in a
  leaf only, so inserting the key 2 again descends to the right child and adds a second
  entry: the search still returns the first payload and \<^verbatim>\<open>bt_count_keys\<close> goes from 4
  to 5. With \<open>t = 3\<close>, the keys 1, 3, 5, 7 share the root leaf; inserting the key 3 again
  replaces its payload, but the loop has moved 5 and 7 up by then and \<^verbatim>\<open>nkeys\<close> stays:
  the leaf holds 1, 3, 5, 5 and the key 7 is gone.
\<close>

theorem reinsert_breaks_upsert:
  "fst (bt_search
     (bt_insert (bt_insert_all (bt_create 2) [(1, Ptr 1), (2, Ptr 2), (3, Ptr 3), (4, Ptr 4)])
        2 (Ptr 22)) 2 stats0) = Ptr 2
   \<and> bt_count_keys (bt_insert_all (bt_create 2) [(1, Ptr 1), (2, Ptr 2), (3, Ptr 3), (4, Ptr 4)]) = 4
   \<and> bt_count_keys
     (bt_insert (bt_insert_all (bt_create 2) [(1, Ptr 1), (2, Ptr 2), (3, Ptr 3), (4, Ptr 4)])
        2 (Ptr 22)) = 5
   \<and> bt_root
     (bt_insert (bt_insert_all (bt_create 2) [(1, Ptr 1), (2, Ptr 2), (3, Ptr 3), (4, Ptr 4)])
        2 (Ptr 22))
     = BTreeNode [(2, Ptr 2)]
         [BTreeNode [(1, Ptr 1)] [] True,
          BTreeNode [(2, Ptr 22), (3, Ptr 3), (4, Ptr 4)] [] True] False
   \<and> bt_root
     (bt_insert (bt_insert_all (bt_create 3) [(1, Ptr 1), (3, Ptr 3), (5, Ptr 5), (7, Ptr 7)])
        3 (Ptr 33))
     = BTreeNode [(1, Ptr 1), (3, Ptr 33), (5, Ptr 5), (5, Ptr 5)] [] True
   \<and> fst (bt_search
     (bt_insert (bt_insert_all (bt_create 3) [(1, Ptr 1), (3, Ptr 3), (5, Ptr 5), (7, Ptr 7)])
        3 (Ptr 33)) 7 stats0) = NULL"
  by code_simp

text \<open>
  Claim C2: \<^verbatim>\<open>bt_range_search\<close> calls the callback once for each entry with a key in
  \<open>[lo, hi]\<close>, in increasing key order. It fails on the code. On the tree of the keys
  1, 2, 3, 4 with \<open>t = 2\<close>, \<^verbatim>\<open>bt_range_search\<close> with
  \<open>lo = hi = 1\<close> descends into the left child of the root before the root's key 2 (as
  \<open>lo \<le> 2\<close>) and once more after it (as \<open>2 > hi\<close>): the callback is called twice for the
  key 1.
\<close>

theorem range_search_emits_twice:
  "bt_range_search (bt_insert_all (bt_create 2) [(1, Ptr 1), (2, Ptr 2), (3, Ptr 3), (4, Ptr 4)])
      1 1 (\<lambda>k v out. out @ [(k, v)]) [] stats0
    = ([(1, Ptr 1), (1, Ptr 1)], \<lparr>node_visits = 3\<rparr>)"
  by code_simp

section \<open>Distinct inserts\<close>

lemma bt_insert_all_Cons:
  "bt_insert_all tr ((k, v) # kvs) = bt_insert_all (bt_insert tr k v) kvs"
  by (simp add: bt_insert_all_def)

lemma bt_insert_all_ok:
  assumes "wf_tree tr" "strict_tree tr" "distinct (map fst kvs)" "fst ` set kvs \<inter> keys_of tr = {}"
  shows "wf_tree (bt_insert_all tr kvs) \<and> strict_tree (bt_insert_all tr kvs)
     \<and> set (inorder (bt_root (bt_insert_all tr kvs))) = set (inorder (bt_root tr)) \<union> set kvs
     \<and> bt_count_keys (bt_insert_all tr kvs) = bt_count_keys tr + length kvs"
  using assms
proof (induction kvs arbitrary: tr)
  case Nil
  then show ?case by (simp add: bt_insert_all_def)
next
  case (Cons kv kvs)
  obtain k v where kv: "kv = (k, v)" by (cases kv)
  have fresh: "k \<notin> keys_of tr" using Cons.prems(4) kv by auto
  note fr = bt_insert_fresh [OF Cons.prems(1,2) fresh, of v]
  have wf': "wf_tree (bt_insert tr k v)"
    using Cons.prems(1,2) by (intro bt_insert_wf strict_imp_sorted)
  have keys': "keys_of (bt_insert tr k v) = insert k (keys_of tr)"
    using Cons.prems(1,2) fresh by (intro bt_insert_keys strict_imp_sorted)
  have disj: "fst ` set kvs \<inter> keys_of (bt_insert tr k v) = {}"
    using Cons.prems(3,4) kv keys' by auto
  have "distinct (map fst kvs)" using Cons.prems(3) by simp
  from Cons.IH [OF wf' fr(1) this disj] fr(3,4) show ?case
    by (simp add: kv bt_insert_all_Cons)
qed

lemma bt_insert_all_create:
  assumes "2 \<le> t" "distinct (map fst kvs)"
  shows "wf_tree (bt_insert_all (bt_create t) kvs)" "strict_tree (bt_insert_all (bt_create t) kvs)"
    "set (inorder (bt_root (bt_insert_all (bt_create t) kvs))) = set kvs"
    "bt_count_keys (bt_insert_all (bt_create t) kvs) = length kvs"
proof -
  have "strict_tree (bt_create t)" "keys_of (bt_create t) = {}" "bt_count_keys (bt_create t) = 0"
    by (simp_all add: strict_tree_def keys_of_def bt_create_inorder bt_count_keys_def
        bt_create_def bt_new_node_def)
  with bt_insert_all_ok [OF bt_create_wf [OF assms(1)] _ assms(2)]
  show "wf_tree (bt_insert_all (bt_create t) kvs)" "strict_tree (bt_insert_all (bt_create t) kvs)"
    "set (inorder (bt_root (bt_insert_all (bt_create t) kvs))) = set kvs"
    "bt_count_keys (bt_insert_all (bt_create t) kvs) = length kvs"
    by (simp_all add: bt_create_inorder)
qed

lemma strict_lookup:
  assumes "strict_tree tr" "set (inorder (bt_root tr)) = set kvs"
  shows "(k, v) \<in> set kvs \<Longrightarrow> lookup (inorder (bt_root tr)) k = v"
    and "k \<notin> fst ` set kvs \<Longrightarrow> lookup (inorder (bt_root tr)) k = NULL"
proof -
  have d: "distinct (map fst (inorder (bt_root tr)))"
    using assms(1) by (simp add: strict_tree_def strict_sorted_iff)
  show "(k, v) \<in> set kvs \<Longrightarrow> lookup (inorder (bt_root tr)) k = v"
    using lookup_distinct [OF d] assms(2) by simp
  show "k \<notin> fst ` set kvs \<Longrightarrow> lookup (inorder (bt_root tr)) k = NULL"
    using assms(2) by (intro lookup_notin) simp
qed

text \<open>The calls after the inserts leave the cold tree alone and keep hot inside cold.\<close>

lemma hc_run_inserts:
  assumes "\<forall>(k, v) \<in> set kvs. 0 \<le> k \<and> k \<le> max_key idx"
  shows "hc_run idx (map (\<lambda>(k, v). Insert k v) kvs)
     = idx\<lparr>cold := bt_insert_all (cold idx) kvs\<rparr>"
  using assms
proof (induction kvs arbitrary: idx)
  case Nil
  then show ?case by (simp add: hc_run_def bt_insert_all_def)
next
  case (Cons kv kvs)
  obtain k v where kv: "kv = (k, v)" by (cases kv)
  with Cons.prems have step: "fst (hc_insert idx k v) = idx\<lparr>cold := bt_insert (cold idx) k v\<rparr>"
    by (simp add: hc_insert_def)
  have "\<forall>(k', v') \<in> set kvs. 0 \<le> k' \<and> k' \<le> max_key (idx\<lparr>cold := bt_insert (cold idx) k v\<rparr>)"
    using Cons.prems by simp
  from Cons.IH [OF this] show ?case
    by (simp add: kv hc_run_def step bt_insert_all_Cons)
qed

lemma hc_run_append: "hc_run idx (xs @ ys) = hc_run (hc_run idx xs) ys"
  by (simp add: hc_run_def)

lemma maybe_promote_hot_sub:
  assumes "hc_inv idx" "hot_sub idx"
  shows "hot_sub (maybe_promote idx k)"
proof -
  consider "maybe_promote idx k = idx"
    | "maybe_promote idx k = idx\<lparr>hot := bt_insert (hot idx) k (fst (bt_search (cold idx) k stats0))\<rparr>"
      "fst (bt_search (hot idx) k stats0) = NULL" "fst (bt_search (cold idx) k stats0) \<noteq> NULL"
    using maybe_promote_cases [of idx k] by blast
  then show ?thesis
  proof cases
    case 1
    with assms show ?thesis by simp
  next
    case 2
    have hok: "hot_ok idx" and cok: "cold_ok idx" using assms(1) by (simp_all add: hc_inv_def)
    have fresh: "k \<notin> keys_of (hot idx)" using hok 2(2) by (rule hot_ok_fresh)
    have wfh: "wf_tree (hot idx)" and sth: "strict_tree (hot idx)"
      using hok by (simp_all add: hot_ok_def)
    note fr = bt_insert_fresh(4) [OF wfh sth fresh, of "fst (bt_search (cold idx) k stats0)"]
    have "(k, fst (bt_search (cold idx) k stats0)) \<in> set (inorder (bt_root (cold idx)))"
      using cok 2(3) by (intro bt_search_mem) (simp_all add: cold_ok_def)
    with fr assms(2) show ?thesis unfolding 2(1) by (simp add: hot_sub_def)
  qed
qed

lemma hc_step_hot_sub:
  assumes "hc_inv idx" "hot_sub idx" "\<not> is_insert op"
  shows "hot_sub (hc_step idx op)" "cold (hc_step idx op) = cold idx"
proof -
  show "cold (hc_step idx op) = cold idx"
    using assms(3) by (cases op) (simp_all add: hc_search_fields hc_range_search_fields)
  show "hot_sub (hc_step idx op)"
  proof (cases op)
    case (Insert k v)
    with assms(3) show ?thesis by simp
  next
    case (Search k)
    from maybe_promote_hot_sub [OF assms(1,2), of k]
    have "set (inorder (bt_root (hot (maybe_promote idx k)))) \<subseteq> set (inorder (bt_root (cold idx)))"
      by (simp add: hot_sub_def maybe_promote_fields)
    with hc_search_hot [of idx k] assms(2) Search show ?thesis
      by (auto simp: hot_sub_def hc_search_fields)
  next
    case (Range_search lo hi)
    with assms(2) show ?thesis by (simp add: hot_sub_def hc_range_search_fields)
  qed
qed

lemma hc_run_hot_sub:
  assumes "hc_inv idx" "hot_sub idx" "\<forall>op \<in> set ops. \<not> is_insert op"
  shows "hot_sub (hc_run idx ops) \<and> cold (hc_run idx ops) = cold idx"
  using assms unfolding hc_run_def
proof (induction ops arbitrary: idx)
  case Nil
  then show ?case by simp
next
  case (Cons op ops)
  have ni: "\<not> is_insert op" using Cons.prems(3) by simp
  note st = hc_step_hot_sub [OF Cons.prems(1,2) ni]
  have "hc_inv (hc_step idx op)" using Cons.prems(1) by (rule hc_step_inv)
  from Cons.IH [OF this st(1)] Cons.prems(3) st(2) show ?case by simp
qed

lemma hc_search_result:
  "fst (hc_search idx k) =
     (if fst (bt_search (hot idx) k stats0) \<noteq> NULL then fst (bt_search (hot idx) k stats0)
      else fst (bt_search (cold idx) k stats0))"
  by (simp add: hc_search_def hc_search_fp_def Let_def case_prod_beta stats0_def)

lemma hc_search_lookup:
  assumes "hc_inv idx" "hot_sub idx" "strict_tree (cold idx)"
  shows "fst (hc_search idx k) = lookup (inorder (bt_root (cold idx))) k"
proof -
  have wfc: "wf_tree (cold idx)" and wfh: "wf_tree (hot idx)"
    using assms(1) by (simp_all add: hc_inv_def cold_ok_def hot_ok_def)
  have c: "fst (bt_search (cold idx) k stats0) = lookup (inorder (bt_root (cold idx))) k"
    using wfc assms(3) by (rule bt_search_lookup)
  show ?thesis
  proof (cases "fst (bt_search (hot idx) k stats0) = NULL")
    case True
    with c show ?thesis by (simp add: hc_search_result)
  next
    case False
    then have "(k, fst (bt_search (hot idx) k stats0)) \<in> set (inorder (bt_root (hot idx)))"
      using wfh by (intro bt_search_mem)
    then have "(k, fst (bt_search (hot idx) k stats0)) \<in> set (inorder (bt_root (cold idx)))"
      using assms(2) by (auto simp: hot_sub_def)
    moreover have "distinct (map fst (inorder (bt_root (cold idx))))"
      using assms(3) by (simp add: strict_tree_def strict_sorted_iff)
    ultimately have "lookup (inorder (bt_root (cold idx))) k = fst (bt_search (hot idx) k stats0)"
      by (intro lookup_distinct)
    with False show ?thesis by (simp add: hc_search_result)
  qed
qed

text \<open>
  Claim C4. A tree built from \<^verbatim>\<open>bt_create(t)\<close>, \<open>t \<ge> 2\<close>, by inserts with pairwise
  distinct keys returns for each of these keys the payload inserted with it, returns
  \<open>NULL\<close> for every other key, and counts as many keys as there were inserts. The same
  holds for \<^verbatim>\<open>hc_search\<close> on an index built by \<^verbatim>\<open>hc_insert\<close> calls with pairwise
  distinct keys of \<open>[0, max_key]\<close>, after any further searches and range searches, and
  for \<^verbatim>\<open>bt_count_keys\<close> of its cold tree.
\<close>

theorem distinct_inserts_round_trip:
  assumes "2 \<le> t" "distinct (map fst kvs)"
  shows "(\<forall>(k, v) \<in> set kvs. fst (bt_search (bt_insert_all (bt_create t) kvs) k s) = v)
    \<and> (\<forall>k. k \<notin> fst ` set kvs \<longrightarrow> fst (bt_search (bt_insert_all (bt_create t) kvs) k s) = NULL)
    \<and> bt_count_keys (bt_insert_all (bt_create t) kvs) = length kvs
    \<and> ((\<forall>(k, v) \<in> set kvs. 0 \<le> k \<and> k \<le> mk) \<and> (\<forall>op \<in> set qs. \<not> is_insert op) \<longrightarrow>
        (\<forall>(k, v) \<in> set kvs.
           fst (hc_search (hc_run (hc_create mk t ps) (map (\<lambda>(k, v). Insert k v) kvs @ qs)) k) = v)
      \<and> (\<forall>k. k \<notin> fst ` set kvs \<longrightarrow>
           fst (hc_search (hc_run (hc_create mk t ps) (map (\<lambda>(k, v). Insert k v) kvs @ qs)) k) = NULL)
      \<and> bt_count_keys (cold (hc_run (hc_create mk t ps) (map (\<lambda>(k, v). Insert k v) kvs @ qs)))
          = length kvs)"
proof -
  define tr where "tr = bt_insert_all (bt_create t) kvs"
  note tr = bt_insert_all_create [OF assms, folded tr_def]
  have sl: "fst (bt_search tr k s) = lookup (inorder (bt_root tr)) k" for k s
    using tr(1,2) by (rule bt_search_lookup)
  note lk = strict_lookup [OF tr(2,3)]
  have bt: "(\<forall>(k, v) \<in> set kvs. fst (bt_search tr k s) = v)
    \<and> (\<forall>k. k \<notin> fst ` set kvs \<longrightarrow> fst (bt_search tr k s) = NULL)
    \<and> bt_count_keys tr = length kvs"
    using lk tr(4) by (auto simp: sl)
  have hc: "(\<forall>(k, v) \<in> set kvs. fst (hc_search idx k) = v)
      \<and> (\<forall>k. k \<notin> fst ` set kvs \<longrightarrow> fst (hc_search idx k) = NULL)
      \<and> bt_count_keys (cold idx) = length kvs"
    if rng: "\<forall>(k, v) \<in> set kvs. 0 \<le> k \<and> k \<le> mk" and ni: "\<forall>op \<in> set qs. \<not> is_insert op"
      and idx: "idx = hc_run (hc_create mk t ps) (map (\<lambda>(k, v). Insert k v) kvs @ qs)" for idx
  proof -
    define idx1 where "idx1 = hc_run (hc_create mk t ps) (map (\<lambda>(k, v). Insert k v) kvs)"
    have "\<forall>(k, v) \<in> set kvs. 0 \<le> k \<and> k \<le> max_key (hc_create mk t ps)"
      using rng by (simp add: hc_create_def)
    from hc_run_inserts [OF this]
    have i1: "cold idx1 = tr" "hot idx1 = bt_create t"
      by (simp_all add: idx1_def tr_def hc_create_def)
    have inv1: "hc_inv idx1" unfolding idx1_def using assms(1) by (intro hc_run_inv hc_create_inv)
    have hs1: "hot_sub idx1" by (simp add: hot_sub_def i1 bt_create_inorder)
    have idx': "idx = hc_run idx1 qs" by (simp add: idx idx1_def hc_run_append)
    from hc_run_hot_sub [OF inv1 hs1 ni]
    have hs: "hot_sub idx" and cold: "cold idx = tr" by (simp_all add: idx' i1)
    have inv: "hc_inv idx" unfolding idx' using inv1 by (rule hc_run_inv)
    have "fst (hc_search idx k) = lookup (inorder (bt_root tr)) k" for k
      using hc_search_lookup [OF inv hs] tr(2) by (simp add: cold)
    with lk tr(4) show ?thesis by (auto simp: cold)
  qed
  have "(\<forall>(k, v) \<in> set kvs. 0 \<le> k \<and> k \<le> mk) \<and> (\<forall>op \<in> set qs. \<not> is_insert op) \<longrightarrow>
        (\<forall>(k, v) \<in> set kvs.
           fst (hc_search (hc_run (hc_create mk t ps) (map (\<lambda>(k, v). Insert k v) kvs @ qs)) k) = v)
      \<and> (\<forall>k. k \<notin> fst ` set kvs \<longrightarrow>
           fst (hc_search (hc_run (hc_create mk t ps) (map (\<lambda>(k, v). Insert k v) kvs @ qs)) k) = NULL)
      \<and> bt_count_keys (cold (hc_run (hc_create mk t ps) (map (\<lambda>(k, v). Insert k v) kvs @ qs)))
          = length kvs"
    by (intro impI, elim conjE, rule hc [OF _ _ refl])
  with bt show ?thesis unfolding tr_def by (intro conjI) (elim conjE, assumption)+
qed

theorem distinct_inserts_round_trip_witness:
  "fst (bt_search (bt_insert_all (bt_create 2)
        [(5, Ptr 15), (1, Ptr 11), (4, Ptr 14), (2, Ptr 12), (3, Ptr 13)]) 4 stats0) = Ptr 14
   \<and> fst (bt_search (bt_insert_all (bt_create 2)
        [(5, Ptr 15), (1, Ptr 11), (4, Ptr 14), (2, Ptr 12), (3, Ptr 13)]) 7 stats0) = NULL
   \<and> bt_count_keys (bt_insert_all (bt_create 2)
        [(5, Ptr 15), (1, Ptr 11), (4, Ptr 14), (2, Ptr 12), (3, Ptr 13)]) = 5
   \<and> fst (hc_search (hc_run (hc_create 9 2
          \<lparr>decay_alpha = 1 / 2, hot_threshold = 1, max_hot_fraction = 1 / 2, inclusive = 1\<rparr>)
        (map (\<lambda>(k, v). Insert k v) [(5, Ptr 15), (1, Ptr 11), (4, Ptr 14), (2, Ptr 12), (3, Ptr 13)]
          @ [Search 4, Search 2])) 4) = Ptr 14
   \<and> fst (hc_search (hc_run (hc_create 9 2
          \<lparr>decay_alpha = 1 / 2, hot_threshold = 1, max_hot_fraction = 1 / 2, inclusive = 1\<rparr>)
        (map (\<lambda>(k, v). Insert k v) [(5, Ptr 15), (1, Ptr 11), (4, Ptr 14), (2, Ptr 12), (3, Ptr 13)]
          @ [Search 4, Search 2])) 7) = NULL
   \<and> bt_count_keys (cold (hc_run (hc_create 9 2
          \<lparr>decay_alpha = 1 / 2, hot_threshold = 1, max_hot_fraction = 1 / 2, inclusive = 1\<rparr>)
        (map (\<lambda>(k, v). Insert k v) [(5, Ptr 15), (1, Ptr 11), (4, Ptr 14), (2, Ptr 12), (3, Ptr 13)]
          @ [Search 4, Search 2]))) = 5"
  using distinct_inserts_round_trip [of 2
      "[(5, Ptr 15), (1, Ptr 11), (4, Ptr 14), (2, Ptr 12), (3, Ptr 13)]" stats0 9
      "[Search 4, Search 2]"
      "\<lparr>decay_alpha = 1 / 2, hot_threshold = 1, max_hot_fraction = 1 / 2, inclusive = 1\<rparr>"]
  by simp

section \<open>Range scans\<close>

lemma rest_from_0: "rest_from n 0 = inorder n"
  by (cases n) (simp add: rest_from_def)

lemma rest_from_leaf_step:
  "leaf n \<Longrightarrow> i < length (entries n) \<Longrightarrow>
   rest_from n i = entries n ! i # rest_from n (Suc i)"
  by (simp add: rest_from_def Cons_nth_drop_Suc)

lemma rest_from_leaf_end: "leaf n \<Longrightarrow> \<not> i < length (entries n) \<Longrightarrow> rest_from n i = []"
  by (simp add: rest_from_def)

lemma rest_from_inner_step:
  assumes "\<not> leaf n" "i < length (entries n)" "length (children n) = Suc (length (entries n))"
  shows "rest_from n i = inorder (children n ! i) @ entries n ! i # rest_from n (Suc i)"
proof -
  have "drop i (children n) = children n ! i # drop (Suc i) (children n)"
    using assms by (simp add: Cons_nth_drop_Suc)
  moreover have "drop i (entries n) = entries n ! i # drop (Suc i) (entries n)"
    using assms by (simp add: Cons_nth_drop_Suc)
  ultimately show ?thesis using assms(1) by (simp add: rest_from_def)
qed

lemma rest_from_inner_end:
  assumes "\<not> leaf n" "i = length (entries n)" "length (children n) = Suc (length (entries n))"
  shows "rest_from n i = inorder (children n ! i)"
proof -
  have "i < length (children n)" using assms by simp
  then have "children n ! i # drop (Suc i) (children n) = drop i (children n)"
    by (rule Cons_nth_drop_Suc)
  moreover have "drop (Suc i) (children n) = []" "drop i (entries n) = []" using assms by simp_all
  ultimately have "drop i (children n) = [children n ! i]" by simp
  then show ?thesis using assms(1) \<open>drop i (entries n) = []\<close> by (simp add: rest_from_def)
qed

lemma wf_node_children:
  "wf_node t n \<Longrightarrow> \<not> leaf n \<Longrightarrow>
   length (children n) = Suc (length (entries n)) \<and> (\<forall>c \<in> set (children n). wf_node t c)"
  by (cases n) simp

lemma rest_from_suffix:
  assumes "wf_node t n" "i \<le> length (entries n)"
  shows "\<exists>pre. inorder n = pre @ rest_from n i"
  using assms(2)
proof (induction i)
  case 0
  show ?case by (simp add: rest_from_0)
next
  case (Suc i)
  then obtain pre where pre: "inorder n = pre @ rest_from n i" by auto
  have lt: "i < length (entries n)" using Suc.prems by simp
  show ?case
  proof (cases "leaf n")
    case True
    with pre rest_from_leaf_step [OF True lt] show ?thesis
      by (intro exI [of _ "pre @ [entries n ! i]"]) simp
  next
    case False
    from wf_node_children [OF assms(1) False]
    have "rest_from n i = inorder (children n ! i) @ entries n ! i # rest_from n (Suc i)"
      using False lt by (intro rest_from_inner_step) simp_all
    with pre show ?thesis
      by (intro exI [of _ "pre @ inorder (children n ! i) @ [entries n ! i]"]) simp
  qed
qed

lemma in_range_simps:
  "in_range lo hi [] = {}"
  "in_range lo hi (xs @ ys) = in_range lo hi xs \<union> in_range lo hi ys"
  "in_range lo hi (e # xs) = (if lo \<le> fst e \<and> fst e \<le> hi then {e} else {}) \<union> in_range lo hi xs"
  by (auto simp: in_range_def)

lemma in_range_below: "\<forall>e \<in> set xs. fst e < lo \<Longrightarrow> in_range lo hi xs = {}"
  by (auto simp: in_range_def)

lemma in_range_above: "\<forall>e \<in> set xs. hi < fst e \<Longrightarrow> in_range lo hi xs = {}"
  by (auto simp: in_range_def)

lemma range_loop_set:
  assumes wf: "wf_node t n" and so: "sorted (map fst (inorder n))"
    and IH: "\<And>c. c \<in> set (children n) \<Longrightarrow> sorted (map fst (inorder c)) \<Longrightarrow>
          set (fst (bt_range_node c lo hi)) = in_range lo hi (inorder c)"
    and "i \<le> length (entries n)"
  shows "set (fst (bt_range_loop n i lo hi)) = in_range lo hi (rest_from n i)"
  using assms(4)
proof (induction "length (entries n) - i" arbitrary: i)
  case 0
  then have ie: "i = length (entries n)" by simp
  show ?case
  proof (cases "leaf n")
    case True
    moreover have "\<not> i < length (entries n)" using ie by simp
    ultimately show ?thesis
      by (subst bt_range_loop.simps) (simp add: rest_from_leaf_end in_range_simps)
  next
    case False
    note ch = wf_node_children [OF wf False]
    then have ilt: "i < length (children n)" using ie by simp
    then have cin: "children n ! i \<in> set (children n)" by simp
    have rf: "rest_from n i = inorder (children n ! i)"
      using False ie ch by (intro rest_from_inner_end) simp_all
    obtain pre where "inorder n = pre @ rest_from n i"
      using rest_from_suffix [OF wf] ie by blast
    with so rf have "sorted (map fst (inorder (children n ! i)))" by (simp add: sorted_append)
    moreover have "\<not> i < length (entries n)" using ie by simp
    ultimately show ?thesis
      using IH [OF cin] False ilt by (subst bt_range_loop.simps) (simp add: rf)
  qed
next
  case (Suc d)
  then have lt: "i < length (entries n)" by simp
  define e where "e = entries n ! i"
  have ihl: "set (fst (bt_range_loop n (Suc i) lo hi)) = in_range lo hi (rest_from n (Suc i))"
    using Suc by (intro Suc.hyps(1)) simp_all
  obtain pre where pre: "inorder n = pre @ rest_from n i"
    using rest_from_suffix [OF wf] lt by (meson less_imp_le)
  show ?case
  proof (cases "leaf n")
    case True
    have rf: "rest_from n i = e # rest_from n (Suc i)"
      unfolding e_def using True lt by (rule rest_from_leaf_step)
    have above: "in_range lo hi (rest_from n (Suc i)) = {}" if "hi < fst e"
    proof (rule in_range_above)
      from so pre rf have "\<forall>x \<in> set (rest_from n (Suc i)). fst e \<le> fst x"
        by (auto simp: sorted_append)
      with that show "\<forall>x \<in> set (rest_from n (Suc i)). hi < fst x" by fastforce
    qed
    show ?thesis
      using True lt ihl above
      by (subst bt_range_loop.simps)
         (auto simp: rf Let_def case_prod_beta in_range_simps e_def [symmetric])
  next
    case False
    note ch = wf_node_children [OF wf False]
    then have ilt: "i < length (children n)" using lt by simp
    then have cin: "children n ! i \<in> set (children n)" by simp
    define c where "c = children n ! i"
    have rf: "rest_from n i = inorder c @ e # rest_from n (Suc i)"
      unfolding e_def c_def using False lt ch by (intro rest_from_inner_step) simp_all
    from so pre rf have sc: "sorted (map fst (inorder c))"
      and cle: "\<forall>x \<in> set (inorder c). fst x \<le> fst e"
      and rge: "\<forall>x \<in> set (rest_from n (Suc i)). fst e \<le> fst x"
      by (auto simp: sorted_append)
    have ihc: "set (fst (bt_range_node c lo hi)) = in_range lo hi (inorder c)"
      unfolding c_def using cin sc [unfolded c_def] by (rule IH)
    have above: "in_range lo hi (rest_from n (Suc i)) = {}" if "hi < fst e"
      using rge that by (intro in_range_above) fastforce
    have below: "in_range lo hi (inorder c) = {}" if "\<not> lo \<le> fst e"
      using cle that by (intro in_range_below) fastforce
    show ?thesis
      using False lt ilt ihl ihc above below
      by (subst bt_range_loop.simps)
         (auto simp: rf Let_def case_prod_beta in_range_simps e_def [symmetric] c_def [symmetric])
  qed
qed

lemma range_node_set:
  "wf_node t n \<Longrightarrow> sorted (map fst (inorder n)) \<Longrightarrow>
   set (fst (bt_range_node n lo hi)) = in_range lo hi (inorder n)"
proof (induction n)
  case (BTreeNode es cs lf)
  have "set (fst (bt_range_loop (BTreeNode es cs lf) 0 lo hi))
      = in_range lo hi (rest_from (BTreeNode es cs lf) 0)"
  proof (rule range_loop_set [OF BTreeNode.prems])
    fix c assume c: "c \<in> set (children (BTreeNode es cs lf))" "sorted (map fst (inorder c))"
    then have "\<not> lf" using BTreeNode.prems(1) by auto
    with c BTreeNode.prems(1) have "wf_node t c" by simp
    with c show "set (fst (bt_range_node c lo hi)) = in_range lo hi (inorder c)"
      by (intro BTreeNode.IH) simp_all
  qed simp
  then show ?case
    by (subst bt_range_node.simps) (simp add: case_prod_beta rest_from_0 del: inorder.simps)
qed

lemma hc_range_cb_same: "hc_range_cb_cold = hc_range_cb_hot"
  by (intro ext) (simp add: hc_range_cb_cold_def hc_range_cb_hot_def)

lemma cb_step:
  assumes "cb_inv mk ctx"
  shows "cb_inv mk (hc_range_cb_hot k v ctx)"
    and "fst ` set (user_calls (hc_range_cb_hot k v ctx))
          = fst ` set (user_calls ctx) \<union> (if 0 \<le> k \<and> k \<le> mk then {k} else {})"
    and "set (user_calls (hc_range_cb_hot k v ctx)) \<subseteq> insert (k, v) (set (user_calls ctx))"
proof -
  have mk: "max_key (ctx_idx ctx) = mk" and len: "length (seen ctx) = nat (mk + 1)"
    and seen: "\<And>k. 0 \<le> k \<Longrightarrow> k \<le> mk \<Longrightarrow>
        (seen ctx ! nat k \<noteq> 0) = (k \<in> fst ` set (user_calls ctx))"
    and dist: "distinct (map fst (user_calls ctx))"
    using assms by (simp_all add: cb_inv_def)
  show "set (user_calls (hc_range_cb_hot k v ctx)) \<subseteq> insert (k, v) (set (user_calls ctx))"
    by (auto simp: hc_range_cb_hot_def)
  show "fst ` set (user_calls (hc_range_cb_hot k v ctx))
          = fst ` set (user_calls ctx) \<union> (if 0 \<le> k \<and> k \<le> mk then {k} else {})"
    using seen [of k] by (auto simp: hc_range_cb_hot_def mk)
  show "cb_inv mk (hc_range_cb_hot k v ctx)"
  proof (cases "k < 0 \<or> k > mk \<or> seen ctx ! nat k \<noteq> 0")
    case True
    then have "hc_range_cb_hot k v ctx = ctx" by (auto simp: hc_range_cb_hot_def mk)
    with assms show ?thesis by simp
  next
    case False
    then have k: "0 \<le> k" "k \<le> mk" "seen ctx ! nat k = 0" by auto
    then have eq: "hc_range_cb_hot k v ctx
        = ctx\<lparr>seen := (seen ctx)[nat k := 1], user_calls := user_calls ctx @ [(k, v)]\<rparr>"
      by (simp add: hc_range_cb_hot_def mk)
    have knew: "k \<notin> fst ` set (user_calls ctx)" using seen [OF k(1,2)] k(3) by simp
    have nk: "nat k < length (seen ctx)" using k len by simp
    have "(((seen ctx)[nat k := 1]) ! nat k' \<noteq> 0)
        = (k' \<in> fst ` set (user_calls ctx @ [(k, v)]))" if "0 \<le> k'" "k' \<le> mk" for k'
    proof (cases "k' = k")
      case True
      with nk show ?thesis by simp
    next
      case False
      then have "nat k \<noteq> nat k'" using k(1) that(1) by simp
      with False seen [OF that] show ?thesis by simp
    qed
    with dist knew len mk show ?thesis unfolding eq by (simp add: cb_inv_def)
  qed
qed

lemma cb_fold:
  assumes "cb_inv mk ctx"
  shows "cb_inv mk (fold (\<lambda>(k, v). hc_range_cb_hot k v) tr ctx)
    \<and> fst ` set (user_calls (fold (\<lambda>(k, v). hc_range_cb_hot k v) tr ctx))
        = fst ` set (user_calls ctx) \<union> (fst ` set tr \<inter> {0 .. mk})
    \<and> set (user_calls (fold (\<lambda>(k, v). hc_range_cb_hot k v) tr ctx))
        \<subseteq> set (user_calls ctx) \<union> set tr"
  using assms
proof (induction tr arbitrary: ctx)
  case Nil
  then show ?case by simp
next
  case (Cons e tr)
  obtain k v where e: "e = (k, v)" by (cases e)
  note st = cb_step [OF Cons.prems, of k v]
  from Cons.IH [OF st(1)] st(2,3) show ?case
    by (simp add: e) blast
qed

lemma fst_in_range:
  "fst ` in_range lo hi xs = {k \<in> fst ` set xs. lo \<le> k \<and> k \<le> hi}"
  by (auto simp: in_range_def image_iff)

lemma hc_range_search_calls:
  "fst (hc_range_search idx lo hi)
     = user_calls (fold (\<lambda>(k, v). hc_range_cb_hot k v)
         (fst (bt_range_node (bt_root (hot idx)) lo hi) @ fst (bt_range_node (bt_root (cold idx)) lo hi))
         \<lparr>user_calls = [], seen = replicate (size_t_of (max_key idx + 1)) 0, ctx_idx = idx\<rparr>)"
  by (simp add: hc_range_search_def bt_range_search_def Let_def case_prod_beta hc_range_cb_same)

text \<open>
  Claim C5. After any sequence of calls on a new index with \<open>0 \<le> max_key < 2^63\<close> (its
  keys are then all in \<open>[0, max_key]\<close>), the calls that \<^verbatim>\<open>hc_range_search\<close> makes of the
  user's callback have exactly the keys of the hot and the cold tree that lie in
  \<open>[lo, hi]\<close>, no key twice, and each call passes an entry of one of the two trees. Nothing
  is said of the order of the calls.
\<close>

theorem range_search_union_dedup:
  assumes "2 \<le> t" "0 \<le> mk" "mk < 2 ^ 63" and "idx = hc_run (hc_create mk t ps) ops"
  shows "fst ` set (fst (hc_range_search idx lo hi))
      = {k \<in> keys_of (hot idx) \<union> keys_of (cold idx). lo \<le> k \<and> k \<le> hi}
    \<and> distinct (map fst (fst (hc_range_search idx lo hi)))
    \<and> set (fst (hc_range_search idx lo hi))
        \<subseteq> set (inorder (bt_root (hot idx))) \<union> set (inorder (bt_root (cold idx)))"
proof -
  have inv: "hc_inv idx" unfolding assms(4) using assms(1) by (intro hc_run_inv hc_create_inv)
  have mk: "max_key idx = mk" by (simp add: assms(4) hc_run_fields hc_create_def)
  have sz: "size_t_of (mk + 1) = nat (mk + 1)"
    using assms(2,3) by (intro size_t_of_small) simp_all
  define ctx0 where "ctx0 = \<lparr>user_calls = [], seen = replicate (nat (mk + 1)) (0::int), ctx_idx = idx\<rparr>"
  define th where "th = fst (bt_range_node (bt_root (hot idx)) lo hi)"
  define tc where "tc = fst (bt_range_node (bt_root (cold idx)) lo hi)"
  have c0: "cb_inv mk ctx0" by (simp add: cb_inv_def ctx0_def mk)
  have out: "fst (hc_range_search idx lo hi)
      = user_calls (fold (\<lambda>(k, v). hc_range_cb_hot k v) (th @ tc) ctx0)"
    by (simp add: hc_range_search_calls mk sz ctx0_def th_def tc_def)
  have wfh: "wf_node (bt_t (hot idx)) (bt_root (hot idx))"
    and sh: "sorted (map fst (inorder (bt_root (hot idx))))"
    and wfc: "wf_node (bt_t (cold idx)) (bt_root (cold idx))"
    and sc: "sorted (map fst (inorder (bt_root (cold idx))))"
    and rng: "keys_of (cold idx) \<subseteq> {0 .. mk}" "keys_of (hot idx) \<subseteq> {0 .. mk}"
    using inv strict_imp_sorted [of "hot idx"]
    by (auto simp: hc_inv_def hot_ok_def cold_ok_def wf_tree_def sorted_tree_def mk)
  have sth: "set th = in_range lo hi (inorder (bt_root (hot idx)))"
    unfolding th_def using wfh sh by (rule range_node_set)
  have stc: "set tc = in_range lo hi (inorder (bt_root (cold idx)))"
    unfolding tc_def using wfc sc by (rule range_node_set)
  have keys: "fst ` set (th @ tc) = {k \<in> keys_of (hot idx) \<union> keys_of (cold idx). lo \<le> k \<and> k \<le> hi}"
    by (auto simp: sth stc image_Un fst_in_range keys_of_def)
  then have "fst ` set (th @ tc) \<inter> {0 .. mk} = fst ` set (th @ tc)"
    using rng by auto
  with cb_fold [OF c0, of "th @ tc"] keys
  have "fst ` set (fst (hc_range_search idx lo hi))
      = {k \<in> keys_of (hot idx) \<union> keys_of (cold idx). lo \<le> k \<and> k \<le> hi}"
    and "distinct (map fst (fst (hc_range_search idx lo hi)))"
    and "set (fst (hc_range_search idx lo hi)) \<subseteq> set (th @ tc)"
    unfolding out by (simp_all add: cb_inv_def ctx0_def)
  moreover have "set (th @ tc) \<subseteq> set (inorder (bt_root (hot idx))) \<union> set (inorder (bt_root (cold idx)))"
    by (auto simp: sth stc in_range_def)
  ultimately show ?thesis by blast
qed

theorem range_search_union_dedup_witness:
  "fst ` set (fst (hc_range_search (hc_run (hc_create 9 2
        \<lparr>decay_alpha = 1 / 2, hot_threshold = 1, max_hot_fraction = 1 / 2, inclusive = 1\<rparr>)
        [Insert 0 (Ptr 10), Insert 1 (Ptr 11), Insert 2 (Ptr 12), Insert 3 (Ptr 13),
         Insert 4 (Ptr 14), Insert 5 (Ptr 15), Insert 6 (Ptr 16), Insert 7 (Ptr 17),
         Insert 8 (Ptr 18), Insert 9 (Ptr 19), Search 3, Search 7]) 2 8))
     = {2, 3, 4, 5, 6, 7, 8}
   \<and> distinct (map fst (fst (hc_range_search (hc_run (hc_create 9 2
        \<lparr>decay_alpha = 1 / 2, hot_threshold = 1, max_hot_fraction = 1 / 2, inclusive = 1\<rparr>)
        [Insert 0 (Ptr 10), Insert 1 (Ptr 11), Insert 2 (Ptr 12), Insert 3 (Ptr 13),
         Insert 4 (Ptr 14), Insert 5 (Ptr 15), Insert 6 (Ptr 16), Insert 7 (Ptr 17),
         Insert 8 (Ptr 18), Insert 9 (Ptr 19), Search 3, Search 7]) 2 8)))"
proof -
  define idx where "idx = hc_run (hc_create 9 2
        \<lparr>decay_alpha = 1 / 2, hot_threshold = 1, max_hot_fraction = 1 / 2, inclusive = 1\<rparr>)
        [Insert 0 (Ptr 10), Insert 1 (Ptr 11), Insert 2 (Ptr 12), Insert 3 (Ptr 13),
         Insert 4 (Ptr 14), Insert 5 (Ptr 15), Insert 6 (Ptr 16), Insert 7 (Ptr 17),
         Insert 8 (Ptr 18), Insert 9 (Ptr 19), Search 3, Search 7]"
  have e: "keys_of (hot idx) = {3, 7}" "keys_of (cold idx) = {0, 1, 2, 3, 4, 5, 6, 7, 8, 9}"
    unfolding idx_def by code_simp+
  have "{k \<in> keys_of (hot idx) \<union> keys_of (cold idx). 2 \<le> k \<and> k \<le> 8} = {2, 3, 4, 5, 6, 7, 8}"
    unfolding e by auto
  with range_search_union_dedup [of 2 9 idx _ _ 2 8, OF _ _ _ idx_def]
  show ?thesis unfolding idx_def [symmetric] by simp
qed

end
